theory Spec2Isabelle
  imports Main "HOL-Library.Word" "HOL-Library.AList"
begin

unbundle bit_operations_syntax

section \<open>Machine types and the constants of the headers\<close>

type_synonym u8 = "8 word"
type_synonym u32 = "32 word"
type_synonym u64 = "64 word"

text \<open>
  Addresses of kernel objects and of physical pages are natural numbers; \<open>0\<close> is the
  null pointer.  A page pointer is represented by the number of its page frame, so that
  \<open>v2p\<close> of a page is a page-aligned physical address.
\<close>

type_synonym ptr = nat

text \<open>
  Modelled from the spec: the headers \<open>mmu.h\<close>, \<open>vm.hh\<close> and \<open>kernel.hh\<close> are not part
  of the sources.  The page size is the 4096 bytes of the spec's scenarios, the slot array
  of a backing object has a fixed hard maximum (\<open>NELEM(page)\<close>), and a page-table entry
  carries the present, writable and user bits of the hardware and the two software bits
  (lock and copy-on-write).  No theorem below depends on the particular values beyond
  \<open>0 < PGSIZE\<close> and the bits being distinct low-order bits.
\<close>

definition PGSIZE :: nat where
  "PGSIZE = 4096"

definition NELEM_page :: nat where
  "NELEM_page = 128"

definition USERTOP :: u64 where
  "USERTOP = 0x0000800000000000"

definition PTE_P :: u64 where
  "PTE_P = 0x001"

definition PTE_W :: u64 where
  "PTE_W = 0x002"

definition PTE_U :: u64 where
  "PTE_U = 0x004"

definition PTE_LOCK :: u64 where
  "PTE_LOCK = 0x200"

definition PTE_COW :: u64 where
  "PTE_COW = 0x800"

definition FEC_WR :: u32 where
  "FEC_WR = 0x2"

definition PGROUNDDOWN :: "u64 \<Rightarrow> u64" where
  "PGROUNDDOWN a = a AND NOT (of_nat PGSIZE - 1)"

definition PTE_ADDR :: "u64 \<Rightarrow> u64" where
  "PTE_ADDR pte = pte AND NOT 0xFFF"

definition v2p :: "ptr \<Rightarrow> u64" where
  "v2p p = push_bit 12 (of_nat p)"

section \<open>Objects and the kernel state\<close>

datatype vmntype = EAGER | ONDEMAND

datatype vmatype = PRIVATE | COW

text \<open>
  \<open>struct vmnode\<close>.  The list \<open>page\<close> holds the slots the constructor has initialised
  (the first \<open>npages\<close> entries of the C array); a read of any other slot is a fault of
  the model.
\<close>

record vmnode =
  npages :: u64
  page :: "ptr list"
  ref :: u64
  type :: vmntype
  ip :: ptr
  offset :: u64
  sz :: u64

text \<open>\<open>struct vma\<close>; the field \<open>n\<close> of the source is \<open>vma_n\<close> here.\<close>

record vma =
  vma_start :: u64
  vma_end :: u64
  va_type :: vmatype
  vma_n :: ptr

text \<open>
  \<open>struct vmap\<close>.  \<open>cr\<close> is the interval index, the list of the regions it holds;
  \<open>pml4\<close> is the user part of the page table, the entries that exist, keyed by the
  page-aligned virtual address.  The kernel-shared segment plays no part below.
\<close>

record vmap =
  cr :: "ptr list"
  ref :: u64
  pml4 :: "(u64 \<times> u64) list"

text \<open>A backing file: its bytes and its reference count.\<close>

record inode =
  idata :: "u8 list"
  iref :: nat

text \<open>
  The kernel state: one store per class of object, the contents of the physical pages,
  the free list of the page allocator (\<open>kalloc\<close>/\<open>kfree\<close>), the addresses operator
  \<open>new\<close> can still hand out, and the number of TLB flushes issued so far.
\<close>

record kstate =
  vmnodes :: "ptr \<rightharpoonup> vmnode"
  vmas :: "ptr \<rightharpoonup> vma"
  vmaps :: "ptr \<rightharpoonup> vmap"
  inodes :: "ptr \<rightharpoonup> inode"
  physmem :: "ptr \<Rightarrow> u8 list"
  kmem :: "ptr list"
  objmem :: "ptr list"
  tlbflushes :: nat

text \<open>
  What a call does: it returns a value in a new state, it panics (a failed \<open>assert\<close>
  is a panic too), or it faults: it dereferences a null or dangling pointer or reads a
  slot that was never initialised.
\<close>

datatype 'a outcome = Ret 'a kstate | Panic string | Fault

section \<open>Collaborators\<close>

text \<open>
  Modelled from the spec: the physical-page allocator (\<open>kalloc.hh\<close>) is
  \<open>allocate_page() -> page_or_exhausted\<close> and \<open>free_page(page)\<close>; here a free list, null
  when it is empty.
\<close>

definition kalloc :: "kstate \<Rightarrow> ptr \<times> kstate" where
  "kalloc s = (case kmem s of [] \<Rightarrow> (0, s) | p # ps \<Rightarrow> (p, s\<lparr>kmem := ps\<rparr>))"

definition kfree :: "ptr \<Rightarrow> kstate \<Rightarrow> kstate" where
  "kfree p s = s\<lparr>kmem := p # kmem s\<rparr>"

text \<open>
  Modelled from the spec: operator \<open>new\<close> (\<open>cpputil.hh\<close>) hands out the address of a fresh
  object, or null when none is left: the source tests the result of \<open>new\<close> against null
  and the spec reports that exhaustion to the caller.  A null result skips the
  constructor.  The address of a deleted object is not handed out again (reclamation is
  deferred by the epoch scheme).
\<close>

definition new_obj :: "kstate \<Rightarrow> ptr \<times> kstate" where
  "new_obj s = (case objmem s of [] \<Rightarrow> (0, s) | p # ps \<Rightarrow> (p, s\<lparr>objmem := ps\<rparr>))"

text \<open>\<open>memset(p, c, PGSIZE)\<close> and \<open>memmove(dst, src, PGSIZE)\<close> on whole pages.\<close>

definition memset_page :: "ptr \<Rightarrow> u8 \<Rightarrow> kstate \<Rightarrow> kstate" where
  "memset_page p c s = s\<lparr>physmem := (physmem s)(p := replicate PGSIZE c)\<rparr>"

definition memmove_page :: "ptr \<Rightarrow> ptr \<Rightarrow> kstate \<Rightarrow> kstate" where
  "memmove_page dst src s = s\<lparr>physmem := (physmem s)(dst := physmem s src)\<rparr>"

text \<open>
  \<open>cmpxch(cell, old, new)\<close>: the cell becomes \<open>new\<close> if it holds \<open>old\<close>; the result says
  whether it did.
\<close>

definition cmpxch :: "'a \<Rightarrow> 'a \<Rightarrow> 'a \<Rightarrow> bool \<times> 'a" where
  "cmpxch cell old new = (if cell = old then (True, new) else (False, cell))"

text \<open>
  Modelled from the spec: the backing-file layer, \<open>read(file, buffer, offset, length) ->
  bytes_read_or_error\<close> with reference-counted acquire and release of the handle.
  \<open>readi\<close> copies the bytes the file has from \<open>off\<close> on, at most \<open>cnt\<close>, to the start of
  the page \<open>dst\<close> and returns how many; an offset past the end of the file is an error.
\<close>

definition readi :: "ptr \<Rightarrow> ptr \<Rightarrow> u64 \<Rightarrow> nat \<Rightarrow> kstate \<Rightarrow> int outcome" where
  "readi i dst off cnt s =
     (case inodes s i of
        None \<Rightarrow> Fault
      | Some f \<Rightarrow>
          if length (idata f) < unat off then Ret (- 1) s
          else
            let m = min cnt (length (idata f) - unat off) in
            if m = 0 then Ret 0 s
            else if dst = 0 then Fault
            else Ret (int m)
              (s\<lparr>physmem := (physmem s)
                 (dst := take m (drop (unat off) (idata f)) @ drop m (physmem s dst))\<rparr>))"

definition idup :: "ptr \<Rightarrow> kstate \<Rightarrow> ptr outcome" where
  "idup i s =
     (case inodes s i of
        None \<Rightarrow> Fault
      | Some f \<Rightarrow> Ret i (s\<lparr>inodes := (inodes s)(i \<mapsto> f\<lparr>iref := iref f + 1\<rparr>)\<rparr>))"

definition iput :: "ptr \<Rightarrow> kstate \<Rightarrow> unit outcome" where
  "iput i s =
     (case inodes s i of
        None \<Rightarrow> Fault
      | Some f \<Rightarrow> Ret () (s\<lparr>inodes := (inodes s)(i \<mapsto> f\<lparr>iref := iref f - 1\<rparr>)\<rparr>))"

section \<open>vmnode\<close>

text \<open>A read of \<open>page[i]\<close>: defined inside the array and inside its initialised part.\<close>

definition slot :: "vmnode \<Rightarrow> nat \<Rightarrow> ptr option" where
  "slot nd i = (if i < NELEM_page \<and> i < length (page nd) then Some (page nd ! i) else None)"

text \<open>
  One round of the loop of \<open>vmnode::allocpg\<close> after \<open>kalloc\<close> and \<open>memset\<close>: the
  compare-and-swap of the slot, and \<open>kfree\<close> of the page when the swap is lost.
\<close>

definition install_page :: "ptr \<Rightarrow> nat \<Rightarrow> ptr \<Rightarrow> kstate \<Rightarrow> kstate" where
  "install_page this i p s =
     (case vmnodes s this of
        None \<Rightarrow> s
      | Some nd \<Rightarrow>
          (case cmpxch (page nd ! i) 0 p of
             (ok, v) \<Rightarrow>
               let s' = s\<lparr>vmnodes := (vmnodes s)(this \<mapsto> nd\<lparr>page := (page nd)[i := v]\<rparr>)\<rparr>
               in if \<not> ok then kfree p s' else s'))"

text \<open>
  \<open>vmnode::allocpg\<close>, the loop from index \<open>i\<close> on.  The counter never wraps: it stays
  below \<open>npages\<close>.
\<close>

function allocpg_loop :: "ptr \<Rightarrow> nat \<Rightarrow> kstate \<Rightarrow> int outcome" where
  "allocpg_loop this i s =
     (case vmnodes s this of
        None \<Rightarrow> Fault
      | Some nd \<Rightarrow>
          if \<not> i < unat (npages nd) then Ret 0 s
          else
            (case slot nd i of
               None \<Rightarrow> Fault
             | Some q \<Rightarrow>
                 if q \<noteq> 0 then allocpg_loop this (Suc i) s
                 else
                   (case kalloc s of
                      (p, s1) \<Rightarrow>
                        if p = 0 then Ret (- 1) s1
                        else allocpg_loop this (Suc i)
                               (install_page this i p (memset_page p 0 s1)))))"
  by pat_completeness auto

lemma vmnodes_kalloc: "kalloc s = (p, s1) \<Longrightarrow> vmnodes s1 = vmnodes s"
  by (auto simp: kalloc_def split: list.splits)

lemma vmnodes_install_page:
  "vmnodes s this = Some nd \<Longrightarrow>
   vmnodes (install_page this i p s) =
     (vmnodes s)(this \<mapsto> nd\<lparr>page := (page nd)[i := snd (cmpxch (page nd ! i) 0 p)]\<rparr>)"
  by (simp add: install_page_def cmpxch_def kfree_def Let_def)

termination allocpg_loop
proof (relation "measure (\<lambda>(this, i, s).
         case vmnodes s this of None \<Rightarrow> 0 | Some nd \<Rightarrow> unat (npages nd) - i)", goal_cases)
  case 1
  show ?case by simp
next
  case (2 this i s nd q)
  then show ?case by simp
next
  case (3 this i s nd q p s1)
  then have "vmnodes (memset_page p 0 s1) this = Some nd"
    by (simp add: memset_page_def vmnodes_kalloc [of s p s1, OF sym])
  then show ?case
    using 3 by (simp add: vmnodes_install_page)
qed

declare allocpg_loop.simps [simp del]

definition allocpg :: "ptr \<Rightarrow> kstate \<Rightarrow> int outcome" where
  "allocpg this s = allocpg_loop this 0 s"

text \<open>
  \<open>vmnode::demand_load\<close>, the loop from byte \<open>i\<close> on.  The counter is a natural number:
  a round is only completed while \<open>i / PGSIZE\<close> indexes the slot array, far below the
  point where a \<open>u64\<close> wraps.
\<close>

function demand_load_loop :: "ptr \<Rightarrow> nat \<Rightarrow> kstate \<Rightarrow> int outcome" where
  "demand_load_loop this i s =
     (case vmnodes s this of
        None \<Rightarrow> Fault
      | Some nd \<Rightarrow>
          if \<not> i < unat (sz nd) then Ret 0 s
          else
            (case slot nd (i div PGSIZE) of
               None \<Rightarrow> Fault
             | Some p \<Rightarrow>
                 let cnt = (if unat (sz nd) - i < PGSIZE then unat (sz nd) - i else PGSIZE) in
                 (case readi (ip nd) p (offset nd + of_nat i) cnt s of
                    Ret r s1 \<Rightarrow>
                      if r \<noteq> int cnt then Ret (- 1) s1
                      else demand_load_loop this (i + PGSIZE) s1
                  | Panic msg \<Rightarrow> Panic msg
                  | Fault \<Rightarrow> Fault)))"
  by pat_completeness auto

lemma vmnodes_readi: "readi i dst off cnt s = Ret r s1 \<Longrightarrow> vmnodes s1 = vmnodes s"
  by (auto simp: readi_def Let_def split: option.splits if_splits)

termination demand_load_loop
proof (relation "measure (\<lambda>(this, i, s).
         case vmnodes s this of None \<Rightarrow> 0 | Some nd \<Rightarrow> unat (sz nd) - i)", goal_cases)
  case 1
  show ?case by simp
next
  case (2 this i s nd p cnt r s1)
  then have "vmnodes s1 = vmnodes s"
    by (auto dest: vmnodes_readi)
  then show ?case
    using 2 by (simp add: PGSIZE_def)
qed

declare demand_load_loop.simps [simp del]

definition demand_load :: "ptr \<Rightarrow> kstate \<Rightarrow> int outcome" where
  "demand_load this s = demand_load_loop this 0 s"

text \<open>
  The constructor \<open>vmnode::vmnode\<close> on the fresh object \<open>this\<close>.  \<open>memset\<close> clears the
  first \<open>npg\<close> slots.
\<close>

definition vmnode_ctor ::
  "ptr \<Rightarrow> u64 \<Rightarrow> vmntype \<Rightarrow> ptr \<Rightarrow> u64 \<Rightarrow> u64 \<Rightarrow> kstate \<Rightarrow> unit outcome" where
  "vmnode_ctor this npg ntype i off s0 s =
     (if NELEM_page < unat npg then Panic ''vmnode too big''
      else
        let s1 = s\<lparr>vmnodes := (vmnodes s)(this \<mapsto>
                   \<lparr>npages = npg, page = replicate (unat npg) 0, ref = 0, type = ntype,
                    ip = i, offset = off, sz = s0\<rparr>)\<rparr>
        in
        if ntype = EAGER \<and> i \<noteq> 0 then
          (case allocpg this s1 of
             Ret r s2 \<Rightarrow>
               if r \<noteq> 0 then Panic ''assert: allocpg() == 0''
               else
                 (case demand_load this s2 of
                    Ret r' s3 \<Rightarrow>
                      if r' \<noteq> 0 then Panic ''assert: demand_load() == 0'' else Ret () s3
                  | Panic msg \<Rightarrow> Panic msg
                  | Fault \<Rightarrow> Fault)
           | Panic msg \<Rightarrow> Panic msg
           | Fault \<Rightarrow> Fault)
        else Ret () s1)"

text \<open>\<open>new vmnode(npg, ntype, i, off, s0)\<close>: null when no object is left.\<close>

definition new_vmnode ::
  "u64 \<Rightarrow> vmntype \<Rightarrow> ptr \<Rightarrow> u64 \<Rightarrow> u64 \<Rightarrow> kstate \<Rightarrow> ptr outcome" where
  "new_vmnode npg ntype i off s0 s =
     (case new_obj s of
        (c, s1) \<Rightarrow>
          if c = 0 then Ret 0 s1
          else
            (case vmnode_ctor c npg ntype i off s0 s1 of
               Ret u s2 \<Rightarrow> Ret c s2
             | Panic msg \<Rightarrow> Panic msg
             | Fault \<Rightarrow> Fault))"

text \<open>
  The destructor \<open>vmnode::~vmnode\<close> followed by the release of the object: every page of
  a populated slot goes back to the allocator, the file handle is released.
\<close>

definition vmnode_delete :: "ptr \<Rightarrow> kstate \<Rightarrow> unit outcome" where
  "vmnode_delete this s =
     (case vmnodes s this of
        None \<Rightarrow> Fault
      | Some nd \<Rightarrow>
          if length (page nd) < unat (npages nd) then Fault
          else
            let s1 = foldl (\<lambda>t p. if p \<noteq> 0 then kfree p t else t) s
                       (take (unat (npages nd)) (page nd));
                s2 = s1\<lparr>vmnodes := (vmnodes s1)(this := None)\<rparr>
            in if ip nd \<noteq> 0 then iput (ip nd) s2 else Ret () s2)"

text \<open>\<open>vmnode::decref\<close>; the counter is a \<open>u64\<close> and wraps.\<close>

definition vmnode_decref :: "ptr \<Rightarrow> kstate \<Rightarrow> unit outcome" where
  "vmnode_decref this s =
     (case vmnodes s this of
        None \<Rightarrow> Fault
      | Some nd \<Rightarrow>
          let s1 = s\<lparr>vmnodes := (vmnodes s)(this \<mapsto> nd\<lparr>vmnode.ref := vmnode.ref nd - 1\<rparr>)\<rparr>
          in if vmnode.ref nd - 1 = 0 then vmnode_delete this s1 else Ret () s1)"

text \<open>
  The second loop of \<open>vmnode::copy\<close>: \<open>memmove\<close> of every resident page of \<open>this\<close> to
  the page in the same slot of \<open>c\<close>.
\<close>

function copy_loop :: "ptr \<Rightarrow> ptr \<Rightarrow> nat \<Rightarrow> kstate \<Rightarrow> unit outcome" where
  "copy_loop this c i s =
     (case vmnodes s this of
        None \<Rightarrow> Fault
      | Some nd \<Rightarrow>
          if \<not> i < unat (npages nd) then Ret () s
          else
            (case slot nd i of
               None \<Rightarrow> Fault
             | Some q \<Rightarrow>
                 if q = 0 then copy_loop this c (Suc i) s
                 else
                   (case vmnodes s c of
                      None \<Rightarrow> Fault
                    | Some cd \<Rightarrow>
                        (case slot cd i of
                           None \<Rightarrow> Fault
                         | Some d \<Rightarrow>
                             if d = 0 then Fault
                             else copy_loop this c (Suc i) (memmove_page d q s)))))"
  by pat_completeness auto

termination copy_loop
  by (relation "measure (\<lambda>(this, c, i, s).
         case vmnodes s this of None \<Rightarrow> 0 | Some nd \<Rightarrow> unat (npages nd) - i)")
     (auto simp: memmove_page_def)

declare copy_loop.simps [simp del]

text \<open>
  \<open>vmnode::copy\<close> from the test of the first slot on: \<open>c\<close> is the new object.
\<close>

definition copy_pages :: "ptr \<Rightarrow> ptr \<Rightarrow> kstate \<Rightarrow> ptr outcome" where
  "copy_pages this c s =
     (case vmnodes s this of
        None \<Rightarrow> Fault
      | Some nd \<Rightarrow>
          (case slot nd 0 of
             None \<Rightarrow> Fault
           | Some p0 \<Rightarrow>
               if p0 = 0 then Ret c s
               else
                 (case allocpg c s of
                    Ret r s1 \<Rightarrow>
                      if r < 0 then
                        (case vmnode_delete c s1 of
                           Ret u s2 \<Rightarrow> Ret 0 s2
                         | Panic msg \<Rightarrow> Panic msg
                         | Fault \<Rightarrow> Fault)
                      else
                        (case copy_loop this c 0 s1 of
                           Ret u s2 \<Rightarrow> Ret c s2
                         | Panic msg \<Rightarrow> Panic msg
                         | Fault \<Rightarrow> Fault)
                  | Panic msg \<Rightarrow> Panic msg
                  | Fault \<Rightarrow> Fault)))"

text \<open>
  \<open>vmnode::copy\<close>.  The object is allocated first; the argument \<open>idup(ip)\<close> of the
  constructor is evaluated only for an object that exists.
\<close>

definition vmnode_copy :: "ptr \<Rightarrow> kstate \<Rightarrow> ptr outcome" where
  "vmnode_copy this s =
     (case vmnodes s this of
        None \<Rightarrow> Fault
      | Some nd \<Rightarrow>
          (case new_obj s of
             (c, s1) \<Rightarrow>
               if c = 0 then Ret 0 s1
               else
                 (case (if type nd = ONDEMAND then idup (ip nd) s1 else Ret 0 s1) of
                    Ret i s2 \<Rightarrow>
                      (case vmnode_ctor c (npages nd) (type nd) i (offset nd) (sz nd) s2 of
                         Ret u s3 \<Rightarrow> copy_pages this c s3
                       | Panic msg \<Rightarrow> Panic msg
                       | Fault \<Rightarrow> Fault)
                  | Panic msg \<Rightarrow> Panic msg
                  | Fault \<Rightarrow> Fault)))"

section \<open>vma\<close>

text \<open>
  The constructor \<open>vma::vma\<close> on the fresh object \<open>e\<close>.  The base class \<open>range\<close> takes
  the key \<open>start\<close> and the size \<open>end - start\<close>, both read back from the fields below; the
  index \<open>vm\<close> the range belongs to is not recorded.
\<close>

definition vma_ctor ::
  "ptr \<Rightarrow> ptr \<Rightarrow> u64 \<Rightarrow> u64 \<Rightarrow> vmatype \<Rightarrow> ptr \<Rightarrow> kstate \<Rightarrow> unit outcome" where
  "vma_ctor e vm start vend vtype vmn s =
     (let s1 = s\<lparr>vmas := (vmas s)(e \<mapsto>
                 \<lparr>vma_start = start, vma_end = vend, va_type = vtype, vma_n = vmn\<rparr>)\<rparr>
      in
      if vmn \<noteq> 0 then
        (case vmnodes s1 vmn of
           None \<Rightarrow> Fault
         | Some nd \<Rightarrow>
             Ret () (s1\<lparr>vmnodes := (vmnodes s1)(vmn \<mapsto> nd\<lparr>vmnode.ref := vmnode.ref nd + 1\<rparr>)\<rparr>))
      else Ret () s1)"

text \<open>\<open>new vma(vm, start, end, vtype, vmn)\<close>: null when no object is left.\<close>

definition new_vma ::
  "ptr \<Rightarrow> u64 \<Rightarrow> u64 \<Rightarrow> vmatype \<Rightarrow> ptr \<Rightarrow> kstate \<Rightarrow> ptr outcome" where
  "new_vma vm start vend vtype vmn s =
     (case new_obj s of
        (e, s1) \<Rightarrow>
          if e = 0 then Ret 0 s1
          else
            (case vma_ctor e vm start vend vtype vmn s1 of
               Ret u s2 \<Rightarrow> Ret e s2
             | Panic msg \<Rightarrow> Panic msg
             | Fault \<Rightarrow> Fault))"

text \<open>The destructor \<open>vma::~vma\<close> followed by the release of the object.\<close>

definition vma_delete :: "ptr \<Rightarrow> kstate \<Rightarrow> unit outcome" where
  "vma_delete e s =
     (case vmas s e of
        None \<Rightarrow> Fault
      | Some a \<Rightarrow>
          let s1 = s\<lparr>vmas := (vmas s)(e := None)\<rparr>
          in if vma_n a \<noteq> 0 then vmnode_decref (vma_n a) s1 else Ret () s1)"

fun vma_delete_all :: "ptr list \<Rightarrow> kstate \<Rightarrow> unit outcome" where
  "vma_delete_all [] s = Ret () s"
| "vma_delete_all (e # es) s =
     (case vma_delete e s of
        Ret u s1 \<Rightarrow> vma_delete_all es s1
      | Panic msg \<Rightarrow> Panic msg
      | Fault \<Rightarrow> Fault)"

section \<open>The interval index and the page table\<close>

text \<open>
  Modelled from the spec: the interval index (\<open>crange.hh\<close>) is a container keyed by
  address range with a lookup, a locked span over the entries overlapping a range, a
  replace of the span by one entry or by none, and a test whether an entry was deleted.
  An entry is the \<open>range\<close> part of a region: its key is \<open>vma_start\<close> and its size is
  \<open>vma_end - vma_start\<close>.  A replaced entry is destroyed at once; the epoch scheme of the
  source only defers that.
\<close>

definition range_overlaps :: "vma \<Rightarrow> u64 \<Rightarrow> u64 \<Rightarrow> bool" where
  "range_overlaps a k len \<longleftrightarrow>
     unat (vma_start a) < unat k + unat len \<and>
     unat k < unat (vma_start a) + unat (vma_end a - vma_start a)"

definition search_lock :: "ptr list \<Rightarrow> u64 \<Rightarrow> u64 \<Rightarrow> kstate \<Rightarrow> ptr list" where
  "search_lock idx k len s =
     filter (\<lambda>e. case vmas s e of None \<Rightarrow> False | Some a \<Rightarrow> range_overlaps a k len) idx"

definition cr_search :: "ptr list \<Rightarrow> u64 \<Rightarrow> u64 \<Rightarrow> kstate \<Rightarrow> ptr" where
  "cr_search idx k len s = (case search_lock idx k len s of [] \<Rightarrow> 0 | e # es \<Rightarrow> e)"

definition range_key :: "kstate \<Rightarrow> ptr \<Rightarrow> nat" where
  "range_key s e = (case vmas s e of None \<Rightarrow> 0 | Some a \<Rightarrow> unat (vma_start a))"

definition deleted :: "kstate \<Rightarrow> ptr \<Rightarrow> bool" where
  "deleted s e \<longleftrightarrow> vmas s e = None"

text \<open>
  \<open>span.replace(b)\<close> on the index of the address space \<open>vm\<close>: the entries of the span
  leave the index and are destroyed, and \<open>b\<close>, unless it is null, enters it in key order.
\<close>

definition span_replace :: "ptr \<Rightarrow> ptr list \<Rightarrow> ptr \<Rightarrow> kstate \<Rightarrow> unit outcome" where
  "span_replace vm span b s =
     (case vmaps s vm of
        None \<Rightarrow> Fault
      | Some m \<Rightarrow>
          let rest = filter (\<lambda>e. e \<notin> set span) (cr m);
              idx = (if b = 0 then rest else insort_key (range_key s) b rest)
          in vma_delete_all span (s\<lparr>vmaps := (vmaps s)(vm \<mapsto> m\<lparr>cr := idx\<rparr>)\<rparr>))"

text \<open>
  Modelled from the spec: the hardware layer (\<open>mmu.h\<close>, \<open>kernel.hh\<close>) walks to the entry of
  a virtual address, applies a function to every entry of a virtual range, and flushes
  the translation cache.  An entry that does not exist reads as \<open>0\<close>.  The function
  handed to \<open>updatepages\<close> is a loop on one entry; it gives no result when it never
  leaves the loop.
\<close>

definition pte_load :: "(u64 \<times> u64) list \<Rightarrow> u64 \<Rightarrow> u64" where
  "pte_load pt va = (case map_of pt (PGROUNDDOWN va) of None \<Rightarrow> 0 | Some v \<Rightarrow> v)"

definition pte_store :: "ptr \<Rightarrow> u64 \<Rightarrow> u64 \<Rightarrow> kstate \<Rightarrow> kstate" where
  "pte_store vm va v s =
     (case vmaps s vm of
        None \<Rightarrow> s
      | Some m \<Rightarrow>
          s\<lparr>vmaps := (vmaps s)(vm \<mapsto> m\<lparr>pml4 := AList.update (PGROUNDDOWN va) v (pml4 m)\<rparr>)\<rparr>)"

fun updatepages ::
  "(u64 \<times> u64) list \<Rightarrow> u64 \<Rightarrow> u64 \<Rightarrow> (u64 \<Rightarrow> bool \<Rightarrow> (u64 \<times> bool) option) \<Rightarrow> bool \<Rightarrow>
   ((u64 \<times> u64) list \<times> bool) option" where
  "updatepages [] start vend cb x = Some ([], x)"
| "updatepages ((a, v) # pt) start vend cb x =
     (if PGROUNDDOWN start \<le> a \<and> a < vend then
        (case cb v x of
           None \<Rightarrow> None
         | Some (v', x') \<Rightarrow>
             (case updatepages pt start vend cb x' of
                None \<Rightarrow> None
              | Some (pt', x'') \<Rightarrow> Some ((a, v') # pt', x'')))
      else
        (case updatepages pt start vend cb x of
           None \<Rightarrow> None
         | Some (pt', x'') \<Rightarrow> Some ((a, v) # pt', x'')))"

definition tlbflush :: "kstate \<Rightarrow> kstate" where
  "tlbflush s = s\<lparr>tlbflushes := tlbflushes s + 1\<rparr>"

text \<open>
  The loop on one entry in \<open>vmap::insert\<close> and \<open>vmap::remove\<close>; \<open>x\<close> is the captured
  \<open>needtlb\<close>.  The loop of \<open>vmap::pagefault_wcow\<close> is the same without \<open>needtlb\<close>.
\<close>

partial_function (option) clear_pte :: "u64 \<Rightarrow> bool \<Rightarrow> (u64 \<times> bool) option" where
  "clear_pte cell x =
     (let v = cell in
      if v AND PTE_LOCK \<noteq> 0 then clear_pte cell x
      else
        (case cmpxch cell v 0 of
           (ok, cell') \<Rightarrow>
             if ok then Some (cell', x)
             else clear_pte cell' (if v \<noteq> 0 then True else x)))"

partial_function (option) clear_pte_wcow :: "u64 \<Rightarrow> bool \<Rightarrow> (u64 \<times> bool) option" where
  "clear_pte_wcow cell x =
     (let v = cell in
      if v AND PTE_LOCK \<noteq> 0 then clear_pte_wcow cell x
      else
        (case cmpxch cell v 0 of
           (ok, cell') \<Rightarrow> if ok then Some (cell', x) else clear_pte_wcow cell' x))"

text \<open>The loop on one entry in \<open>vmap::copy\<close>: a writable user entry becomes a COW entry.\<close>

partial_function (option) cow_pte :: "u64 \<Rightarrow> bool \<Rightarrow> (u64 \<times> bool) option" where
  "cow_pte cell x =
     (let v = cell in
      if v AND PTE_LOCK \<noteq> 0 then cow_pte cell x
      else if v AND PTE_P = 0 \<or> v AND PTE_U = 0 \<or> v AND PTE_W = 0 then Some (cell, x)
      else
        (case cmpxch cell v (PTE_ADDR v OR PTE_P OR PTE_U OR PTE_COW) of
           (ok, cell') \<Rightarrow> if ok then Some (cell', x) else cow_pte cell' x))"

section \<open>vmap\<close>

text \<open>
  \<open>new vmap()\<close>: an empty index, one reference and an empty user page table.  Modelled
  from the spec: the creation of the page-table root and of the kernel-shared segment
  belongs to the hardware layer and succeeds.
\<close>

definition new_vmap :: "kstate \<Rightarrow> ptr outcome" where
  "new_vmap s =
     (case new_obj s of
        (nm, s1) \<Rightarrow>
          if nm = 0 then Ret 0 s1
          else Ret nm (s1\<lparr>vmaps := (vmaps s1)(nm \<mapsto> \<lparr>cr = [], ref = 1, pml4 = []\<rparr>)\<rparr>))"

text \<open>
  \<open>delete nm\<close>: the destructor of the index destroys the regions it holds, the
  destructor \<open>vmap::~vmap\<close> releases the page table.
\<close>

definition vmap_delete :: "ptr \<Rightarrow> kstate \<Rightarrow> unit outcome" where
  "vmap_delete vm s =
     (case vmaps s vm of
        None \<Rightarrow> Fault
      | Some m \<Rightarrow> vma_delete_all (cr m) (s\<lparr>vmaps := (vmaps s)(vm := None)\<rparr>))"

text \<open>\<open>vmap::replace_vma\<close>.\<close>

definition replace_vma :: "ptr \<Rightarrow> ptr \<Rightarrow> ptr \<Rightarrow> kstate \<Rightarrow> bool outcome" where
  "replace_vma vm a b s =
     (case vmaps s vm of
        None \<Rightarrow> Fault
      | Some m \<Rightarrow>
          (case vmas s a of
             None \<Rightarrow> Ret False s
           | Some ar \<Rightarrow>
               let span = search_lock (cr m) (vma_start ar) (vma_end ar - vma_start ar) s in
               if list_ex (\<lambda>e. a \<noteq> e) span then Panic ''assert: a == e''
               else
                 (case span_replace vm span b s of
                    Ret u s1 \<Rightarrow> Ret True s1
                  | Panic msg \<Rightarrow> Panic msg
                  | Fault \<Rightarrow> Fault)))"

text \<open>\<open>vmap::lookup\<close>.\<close>

definition vmap_lookup :: "ptr \<Rightarrow> u64 \<Rightarrow> u64 \<Rightarrow> kstate \<Rightarrow> ptr outcome" where
  "vmap_lookup vm start len s =
     (if start + len < start then Panic ''vmap::lookup bad len''
      else
        (case vmaps s vm of
           None \<Rightarrow> Fault
         | Some m \<Rightarrow>
             let r = cr_search (cr m) start len s in
             if r \<noteq> 0 then
               (case vmas s r of
                  None \<Rightarrow> Fault
                | Some e \<Rightarrow>
                    if vma_end e \<le> vma_start e then Panic ''malformed va''
                    else if vma_start e < start + len \<and> start < vma_end e then Ret r s
                    else Ret 0 s)
             else Ret 0 s))"

text \<open>
  The clearing of the page-table entries of a range, as \<open>vmap::insert\<close>,
  \<open>vmap::remove\<close> and \<open>vmap::pagefault_wcow\<close> do it: no result when a loop never ends.
\<close>

definition update_range ::
  "ptr \<Rightarrow> u64 \<Rightarrow> u64 \<Rightarrow> (u64 \<Rightarrow> bool \<Rightarrow> (u64 \<times> bool) option) \<Rightarrow> kstate \<Rightarrow>
   (bool outcome) option" where
  "update_range vm start vend cb s =
     (case vmaps s vm of
        None \<Rightarrow> Some Fault
      | Some m \<Rightarrow>
          (case updatepages (pml4 m) start vend cb False of
             None \<Rightarrow> None
           | Some (pt, needtlb) \<Rightarrow>
               Some (Ret needtlb (s\<lparr>vmaps := (vmaps s)(vm \<mapsto> m\<lparr>pml4 := pt\<rparr>)\<rparr>))))"

text \<open>\<open>vmap::insert\<close>; the result is \<open>None\<close> when the call never returns.\<close>

definition vmap_insert :: "ptr \<Rightarrow> ptr \<Rightarrow> u64 \<Rightarrow> bool \<Rightarrow> kstate \<Rightarrow> (int outcome) option" where
  "vmap_insert vm vmn start dotlb s =
     (case vmnodes s vmn of
        None \<Rightarrow> Some Fault
      | Some nd \<Rightarrow>
          (case vmaps s vm of
             None \<Rightarrow> Some Fault
           | Some m \<Rightarrow>
               let len = npages nd * of_nat PGSIZE;
                   span = search_lock (cr m) start len s
               in
               if span \<noteq> [] then Some (Ret (- 1) s)
               else
                 (case new_vma vm start (start + len) PRIVATE vmn s of
                    Ret e s1 \<Rightarrow>
                      if e = 0 then Some (Ret (- 1) s1)
                      else
                        (case span_replace vm span e s1 of
                           Ret u s2 \<Rightarrow>
                             (case update_range vm start (start + len) clear_pte s2 of
                                None \<Rightarrow> None
                              | Some (Ret needtlb s3) \<Rightarrow>
                                  Some (Ret 0 (if needtlb \<and> dotlb then tlbflush s3 else s3))
                              | Some (Panic msg) \<Rightarrow> Some (Panic msg)
                              | Some Fault \<Rightarrow> Some Fault)
                         | Panic msg \<Rightarrow> Some (Panic msg)
                         | Fault \<Rightarrow> Some Fault)
                  | Panic msg \<Rightarrow> Some (Panic msg)
                  | Fault \<Rightarrow> Some Fault)))"

text \<open>\<open>vmap::remove\<close>.\<close>

definition vmap_remove :: "ptr \<Rightarrow> u64 \<Rightarrow> u64 \<Rightarrow> kstate \<Rightarrow> (int outcome) option" where
  "vmap_remove vm start len s =
     (case vmaps s vm of
        None \<Rightarrow> Some Fault
      | Some m \<Rightarrow>
          let vend = start + len;
              span = search_lock (cr m) start len s
          in
          if list_ex (\<lambda>r. case vmas s r of
                            None \<Rightarrow> False
                          | Some a \<Rightarrow> vma_start a < start \<or> vend < vma_end a) span
          then Some (Ret (- 1) s)
          else
            (case span_replace vm span 0 s of
               Ret u s1 \<Rightarrow>
                 (case update_range vm start (start + len) clear_pte s1 of
                    None \<Rightarrow> None
                  | Some (Ret needtlb s2) \<Rightarrow>
                      Some (Ret 0 (if needtlb then tlbflush s2 else s2))
                  | Some (Panic msg) \<Rightarrow> Some (Panic msg)
                  | Some Fault \<Rightarrow> Some Fault)
             | Panic msg \<Rightarrow> Some (Panic msg)
             | Fault \<Rightarrow> Some Fault))"

section \<open>Page faults\<close>

text \<open>\<open>vmap::pagefault_wcow\<close>.\<close>

definition pagefault_wcow :: "ptr \<Rightarrow> ptr \<Rightarrow> kstate \<Rightarrow> (int outcome) option" where
  "pagefault_wcow vm m s =
     (case vmas s m of
        None \<Rightarrow> Some Fault
      | Some mr \<Rightarrow>
          if vma_n mr = 0 then Some Fault
          else
            (case vmnode_copy (vma_n mr) s of
               Ret nodecopy s1 \<Rightarrow>
                 if nodecopy = 0 then Some (Ret (- 1) s1)
                 else
                   (case new_vma vm (vma_start mr) (vma_end mr) PRIVATE nodecopy s1 of
                      Ret repl s2 \<Rightarrow>
                        (case replace_vma vm m repl s2 of
                           Ret b s3 \<Rightarrow>
                             (case update_range vm (vma_start mr) (vma_end mr)
                                     clear_pte_wcow s3 of
                                None \<Rightarrow> None
                              | Some (Ret x s4) \<Rightarrow> Some (Ret 0 s4)
                              | Some (Panic msg) \<Rightarrow> Some (Panic msg)
                              | Some Fault \<Rightarrow> Some Fault)
                         | Panic msg \<Rightarrow> Some (Panic msg)
                         | Fault \<Rightarrow> Some Fault)
                    | Panic msg \<Rightarrow> Some (Panic msg)
                    | Fault \<Rightarrow> Some Fault)
             | Panic msg \<Rightarrow> Some (Panic msg)
             | Fault \<Rightarrow> Some Fault))"

text \<open>
  One pass of \<open>vmap::pagefault\<close> from the label \<open>retry\<close>: it ends the call with an
  outcome, or jumps back to \<open>retry\<close> in a new state, or never ends.
\<close>

datatype step = Done "int outcome" | Retry kstate | Hang

text \<open>
  Lines 421 to 427: the slot of the faulting page is populated through \<open>allocpg\<close>, and
  an object that loads on demand is loaded.
\<close>

definition pf_populate :: "ptr \<Rightarrow> nat \<Rightarrow> kstate \<Rightarrow> unit outcome" where
  "pf_populate vmn npg s =
     (if vmn = 0 then Ret () s
      else
        (case vmnodes s vmn of
           None \<Rightarrow> Fault
         | Some nd \<Rightarrow>
             (case slot nd npg of
                None \<Rightarrow> Fault
              | Some q \<Rightarrow>
                  (case (if q = 0 then
                           (case allocpg vmn s of
                              Ret r s1 \<Rightarrow>
                                if r < 0 then Panic ''pagefault: couldn't allocate pages''
                                else Ret () s1
                            | Panic msg \<Rightarrow> Panic msg
                            | Fault \<Rightarrow> Fault)
                         else Ret () s) of
                     Ret u s1 \<Rightarrow>
                       if type nd = ONDEMAND then
                         (case demand_load vmn s1 of
                            Ret r s2 \<Rightarrow>
                              if r < 0 then Panic ''pagefault: couldn't load'' else Ret () s2
                          | Panic msg \<Rightarrow> Panic msg
                          | Fault \<Rightarrow> Fault)
                       else Ret () s1
                   | Panic msg \<Rightarrow> Panic msg
                   | Fault \<Rightarrow> Fault))))"

text \<open>
  Lines 437 to 452: the entry is claimed with the lock bit, the region is checked again,
  and the translation is installed.
\<close>

definition pf_install :: "ptr \<Rightarrow> u64 \<Rightarrow> u64 \<Rightarrow> ptr \<Rightarrow> vma \<Rightarrow> nat \<Rightarrow> kstate \<Rightarrow> step" where
  "pf_install vm va ptev m mr npg s =
     (case vmaps s vm of
        None \<Rightarrow> Done Fault
      | Some mp \<Rightarrow>
          (case cmpxch (pte_load (pml4 mp) va) ptev (ptev OR PTE_LOCK) of
             (ok, cell) \<Rightarrow>
               if \<not> ok then Retry s
               else
                 let s1 = pte_store vm va cell s in
                 if deleted s1 m then Retry (pte_store vm va ptev s1)
                 else if vma_n mr = 0 then Done Fault
                 else
                   (case vmnodes s1 (vma_n mr) of
                      None \<Rightarrow> Done Fault
                    | Some nd \<Rightarrow>
                        (case slot nd npg of
                           None \<Rightarrow> Done Fault
                         | Some pg \<Rightarrow>
                             if va_type mr = COW then
                               Done (Ret 1 (pte_store vm va
                                 (v2p pg OR PTE_P OR PTE_U OR PTE_COW) s1))
                             else if vmnode.ref nd \<noteq> 1 then
                               Done (Panic ''assert: m->n->ref == 1'')
                             else
                               Done (Ret 1 (pte_store vm va
                                 (v2p pg OR PTE_P OR PTE_U OR PTE_W) s1))))))"

definition pagefault_step :: "ptr \<Rightarrow> u64 \<Rightarrow> u32 \<Rightarrow> kstate \<Rightarrow> step" where
  "pagefault_step vm va err s =
     (case vmaps s vm of
        None \<Rightarrow> Done Fault
      | Some mp \<Rightarrow>
          let ptev = pte_load (pml4 mp) va in
          if ptev AND (PTE_P OR PTE_U OR PTE_W) = (PTE_P OR PTE_U OR PTE_W) then Done (Ret 0 s)
          else if ptev AND PTE_LOCK \<noteq> 0 then Retry s
          else
            (case vmap_lookup vm va 1 s of
               Ret m s0 \<Rightarrow>
                 if m = 0 then Done (Ret (- 1) s0)
                 else
                   (case vmas s0 m of
                      None \<Rightarrow> Done Fault
                    | Some mr \<Rightarrow>
                        let npg = unat ((PGROUNDDOWN va - vma_start mr) div of_nat PGSIZE) in
                        (case pf_populate (vma_n mr) npg s0 of
                           Ret u s1 \<Rightarrow>
                             if va_type mr = COW \<and> err AND FEC_WR \<noteq> 0 then
                               (case pagefault_wcow vm m s1 of
                                  None \<Rightarrow> Hang
                                | Some (Ret r s2) \<Rightarrow>
                                    if r < 0 then Done (Ret (- 1) s2)
                                    else Retry (tlbflush s2)
                                | Some (Panic msg) \<Rightarrow> Done (Panic msg)
                                | Some Fault \<Rightarrow> Done Fault)
                             else pf_install vm va ptev m mr npg s1
                         | Panic msg \<Rightarrow> Done (Panic msg)
                         | Fault \<Rightarrow> Done Fault))
             | Panic msg \<Rightarrow> Done (Panic msg)
             | Fault \<Rightarrow> Done Fault))"

text \<open>
  The passes of \<open>vmap::pagefault\<close>; the result is \<open>None\<close> when the call never returns.
\<close>

partial_function (option) pagefault_retry ::
  "ptr \<Rightarrow> u64 \<Rightarrow> u32 \<Rightarrow> kstate \<Rightarrow> (int outcome) option" where
  "pagefault_retry vm va err s =
     (case pagefault_step vm va err s of
        Done r \<Rightarrow> Some r
      | Retry s' \<Rightarrow> pagefault_retry vm va err s'
      | Hang \<Rightarrow> None)"

text \<open>\<open>vmap::pagefault\<close>.\<close>

definition pagefault :: "ptr \<Rightarrow> u64 \<Rightarrow> u32 \<Rightarrow> kstate \<Rightarrow> (int outcome) option" where
  "pagefault vm va err s =
     (if USERTOP \<le> va then Some (Ret (- 1) s) else pagefault_retry vm va err s)"

section \<open>Fork\<close>

text \<open>
  The body of the loop of \<open>vmap::copy\<close> for the region \<open>e\<close> of the source; the value is
  \<open>False\<close> for \<open>goto err\<close>.  The object of a \<open>new\<close> expression is allocated before the
  arguments of its constructor are evaluated.
\<close>

definition copy_region :: "ptr \<Rightarrow> ptr \<Rightarrow> bool \<Rightarrow> ptr \<Rightarrow> kstate \<Rightarrow> (bool outcome) option" where
  "copy_region this nm share e s =
     (case vmas s e of
        None \<Rightarrow> Some Fault
      | Some er \<Rightarrow>
          (case
             (if share then
                (case new_vma nm (vma_start er) (vma_end er) COW (vma_n er) s of
                   Ret ne s1 \<Rightarrow>
                     if va_type er \<noteq> COW then
                       (case new_vma this (vma_start er) (vma_end er) COW (vma_n er) s1 of
                          Ret repl s2 \<Rightarrow>
                            (case replace_vma this e repl s2 of
                               Ret b s3 \<Rightarrow>
                                 (case update_range this (vma_start er) (vma_end er)
                                         cow_pte s3 of
                                    None \<Rightarrow> None
                                  | Some (Ret x s4) \<Rightarrow> Some (Ret ne s4)
                                  | Some (Panic msg) \<Rightarrow> Some (Panic msg)
                                  | Some Fault \<Rightarrow> Some Fault)
                             | Panic msg \<Rightarrow> Some (Panic msg)
                             | Fault \<Rightarrow> Some Fault)
                        | Panic msg \<Rightarrow> Some (Panic msg)
                        | Fault \<Rightarrow> Some Fault)
                     else Some (Ret ne s1)
                 | Panic msg \<Rightarrow> Some (Panic msg)
                 | Fault \<Rightarrow> Some Fault)
              else
                (case new_obj s of
                   (ne, s1) \<Rightarrow>
                     if ne = 0 then Some (Ret 0 s1)
                     else if vma_n er = 0 then Some Fault
                     else
                       (case vmnode_copy (vma_n er) s1 of
                          Ret c s2 \<Rightarrow>
                            (case vma_ctor ne nm (vma_start er) (vma_end er) PRIVATE c s2 of
                               Ret u s3 \<Rightarrow> Some (Ret ne s3)
                             | Panic msg \<Rightarrow> Some (Panic msg)
                             | Fault \<Rightarrow> Some Fault)
                        | Panic msg \<Rightarrow> Some (Panic msg)
                        | Fault \<Rightarrow> Some Fault))) of
             None \<Rightarrow> None
           | Some (Ret ne s1) \<Rightarrow>
               if ne = 0 then Some (Ret False s1)
               else
                 (case vmas s1 ne of
                    None \<Rightarrow> Some Fault
                  | Some nr \<Rightarrow>
                      if vma_n nr = 0 then
                        (case vma_delete ne s1 of
                           Ret u s2 \<Rightarrow> Some (Ret False s2)
                         | Panic msg \<Rightarrow> Some (Panic msg)
                         | Fault \<Rightarrow> Some Fault)
                      else
                        (case vmaps s1 nm of
                           None \<Rightarrow> Some Fault
                         | Some nmr \<Rightarrow>
                             let span = search_lock (cr nmr) (vma_start nr)
                                          (vma_end nr - vma_start nr) s1
                             in
                             if span \<noteq> [] then Some (Panic ''assert: 0'')
                             else
                               (case span_replace nm span ne s1 of
                                  Ret u s2 \<Rightarrow> Some (Ret True s2)
                                | Panic msg \<Rightarrow> Some (Panic msg)
                                | Fault \<Rightarrow> Some Fault)))
           | Some (Panic msg) \<Rightarrow> Some (Panic msg)
           | Some Fault \<Rightarrow> Some Fault))"

text \<open>The loop of \<open>vmap::copy\<close> over the regions the index held when it started.\<close>

fun copy_regions ::
  "ptr \<Rightarrow> ptr \<Rightarrow> bool \<Rightarrow> ptr list \<Rightarrow> kstate \<Rightarrow> (bool outcome) option" where
  "copy_regions this nm share [] s = Some (Ret True s)"
| "copy_regions this nm share (e # es) s =
     (case copy_region this nm share e s of
        None \<Rightarrow> None
      | Some (Ret ok s1) \<Rightarrow>
          if ok then copy_regions this nm share es s1 else Some (Ret False s1)
      | Some (Panic msg) \<Rightarrow> Some (Panic msg)
      | Some Fault \<Rightarrow> Some Fault)"

text \<open>\<open>vmap::copy\<close>.\<close>

definition vmap_copy :: "ptr \<Rightarrow> bool \<Rightarrow> kstate \<Rightarrow> (ptr outcome) option" where
  "vmap_copy this share s =
     (case new_vmap s of
        Ret nm s1 \<Rightarrow>
          if nm = 0 then Some (Ret 0 s1)
          else
            (case vmaps s1 this of
               None \<Rightarrow> Some Fault
             | Some m \<Rightarrow>
                 (case copy_regions this nm share (cr m) s1 of
                    None \<Rightarrow> None
                  | Some (Ret ok s2) \<Rightarrow>
                      if ok then Some (Ret nm (if share then tlbflush s2 else s2))
                      else
                        (case vmap_delete nm s2 of
                           Ret u s3 \<Rightarrow> Some (Ret 0 s3)
                         | Panic msg \<Rightarrow> Some (Panic msg)
                         | Fault \<Rightarrow> Some Fault)
                  | Some (Panic msg) \<Rightarrow> Some (Panic msg)
                  | Some Fault \<Rightarrow> Some Fault))
      | Panic msg \<Rightarrow> Some (Panic msg)
      | Fault \<Rightarrow> Some Fault)"

section \<open>Auxiliary definitions\<close>

text \<open>The state after one allocating round of the loop of allocpg.\<close>

definition alloc_round :: "ptr \<Rightarrow> nat \<Rightarrow> vmnode \<Rightarrow> ptr \<Rightarrow> ptr list \<Rightarrow> kstate \<Rightarrow> kstate" where
  "alloc_round this i nd p ks s =
     s\<lparr>kmem := ks, physmem := (physmem s)(p := replicate PGSIZE 0),
       vmnodes := (vmnodes s)(this \<mapsto> nd\<lparr>page := (page nd)[i := p]\<rparr>)\<rparr>"

text \<open>The object a returning constructor call of vmnode::copy has built.\<close>

definition copy_init :: "vmnode \<Rightarrow> vmnode" where
  "copy_init nd =
     \<lparr>npages = npages nd, page = replicate (unat (npages nd)) 0, ref = 0, type = type nd,
      ip = (if type nd = ONDEMAND then ip nd else 0), offset = offset nd, sz = sz nd\<rparr>"

text \<open>The bytes one round of demand_load reads: a page, or what is left of the object.\<close>

definition load_cnt :: "vmnode \<Rightarrow> nat \<Rightarrow> nat" where
  "load_cnt nd i = (if unat (sz nd) - i < PGSIZE then unat (sz nd) - i else PGSIZE)"

text \<open>The content of a page after the round of demand_load that starts at byte \<open>i\<close>.\<close>

definition loaded_page :: "vmnode \<Rightarrow> inode \<Rightarrow> nat \<Rightarrow> u8 list \<Rightarrow> u8 list" where
  "loaded_page nd f i old =
     take (load_cnt nd i) (drop (unat (offset nd + of_nat i)) (idata f)) @
     drop (load_cnt nd i) old"

text \<open>
  A fault at \<open>va\<close> in the address space \<open>vm\<close> gets past the fast-accept test and the
  lock test of \<open>vmap::pagefault\<close> and finds the region \<open>m\<close>.
\<close>

definition pf_reaches :: "ptr \<Rightarrow> u64 \<Rightarrow> kstate \<Rightarrow> vmap \<Rightarrow> ptr \<Rightarrow> vma \<Rightarrow> bool" where
  "pf_reaches vm va s mp m mr \<longleftrightarrow>
     va < USERTOP \<and> vmaps s vm = Some mp \<and>
     pte_load (pml4 mp) va AND (PTE_P OR PTE_U OR PTE_W) \<noteq> (PTE_P OR PTE_U OR PTE_W) \<and>
     pte_load (pml4 mp) va AND PTE_LOCK = 0 \<and>
     vmap_lookup vm va 1 s = Ret m s \<and> m \<noteq> 0 \<and> vmas s m = Some mr"

text \<open>The index of the faulting page in the object of the region.\<close>

definition fault_page :: "u64 \<Rightarrow> vma \<Rightarrow> nat" where
  "fault_page va mr = unat ((PGROUNDDOWN va - vma_start mr) div of_nat PGSIZE)"

text \<open>The translation \<open>vmap::pagefault\<close> installs for the page \<open>pg\<close> of a region.\<close>

definition installed_pte :: "vma \<Rightarrow> ptr \<Rightarrow> u64" where
  "installed_pte mr pg =
     (if va_type mr = COW then v2p pg OR PTE_P OR PTE_U OR PTE_COW
      else v2p pg OR PTE_P OR PTE_U OR PTE_W)"

text \<open>
  The effect of reads from a file on the physical memory: the pages in the domain of \<open>C\<close>
  get a new prefix, everything else is kept.
\<close>

definition overlay :: "(ptr \<rightharpoonup> u8 list) \<Rightarrow> (ptr \<Rightarrow> u8 list) \<Rightarrow> ptr \<Rightarrow> u8 list" where
  "overlay C m = (\<lambda>p. case C p of None \<Rightarrow> m p | Some d \<Rightarrow> d @ drop (length d) (m p))"

section \<open>Example states\<close>

text \<open>A state with no object in it; every physical page holds the junk of a freed page.\<close>

definition st0 :: kstate where
  "st0 = \<lparr>vmnodes = Map.empty, vmas = Map.empty, vmaps = Map.empty, inodes = Map.empty,
          physmem = (\<lambda>p. replicate PGSIZE 1), kmem = [], objmem = [], tlbflushes = 0\<rparr>"

text \<open>An anonymous backing object of two pages, none of them resident.\<close>

definition nd_empty2 :: vmnode where
  "nd_empty2 = \<lparr>npages = 2, page = [0, 0], ref = 1, type = EAGER, ip = 0, offset = 0, sz = 0\<rparr>"

definition st_alloc :: kstate where
  "st_alloc = st0\<lparr>vmnodes := [10 \<mapsto> nd_empty2], kmem := [5, 6]\<rparr>"

text \<open>The same object with one free kernel object for its duplicate.\<close>

definition st_copy0 :: kstate where
  "st_copy0 = st0\<lparr>vmnodes := [10 \<mapsto> nd_empty2], kmem := [5, 6], objmem := [11]\<rparr>"

text \<open>
  A backing object of two pages that an interrupted \<open>allocpg\<close> has left half-filled:
  the first page is resident and holds the byte 65 throughout, the second is absent.
\<close>

definition nd_half :: vmnode where
  "nd_half = \<lparr>npages = 2, page = [5, 0], ref = 1, type = EAGER, ip = 0, offset = 0, sz = 0\<rparr>"

definition st_half :: kstate where
  "st_half = st0\<lparr>vmnodes := [10 \<mapsto> nd_half],
     physmem := (physmem st0)(5 := replicate PGSIZE 65), kmem := [6, 7], objmem := [11]\<rparr>"

definition st_half' :: kstate where
  "st_half' = st_half\<lparr>objmem := [], kmem := [],
     physmem := (physmem st_half)(6 := replicate PGSIZE 0, 7 := replicate PGSIZE 0,
                                  6 := replicate PGSIZE 65),
     vmnodes := [10 \<mapsto> nd_half, 11 \<mapsto> nd_half\<lparr>page := [6, 7], vmnode.ref := 0\<rparr>]\<rparr>"

text \<open>A file of five bytes, and one free page.\<close>

definition st_file :: kstate where
  "st_file = st0\<lparr>inodes := [20 \<mapsto> \<lparr>idata = [1, 2, 3, 4, 5], iref = 1\<rparr>], kmem := [5]\<rparr>"

definition st_file' :: kstate where
  "st_file' = st_file\<lparr>kmem := [],
     physmem := (physmem st_file)(5 := [1, 2, 3, 4, 5] @ replicate (PGSIZE - 5) 0),
     vmnodes := [10 \<mapsto> \<lparr>npages = 1, page = [5], ref = 0, type = EAGER, ip = 20,
                          offset = 0, sz = 5\<rparr>]\<rparr>"

text \<open>An anonymous object is constructed with the EAGER policy and no file.\<close>

definition st_anon :: kstate where
  "st_anon = st0\<lparr>kmem := [5, 6], objmem := [10]\<rparr>"

text \<open>
  The address space 1 of the spec's scenario: two private regions of one page each, at
  \<open>[0, 4096)\<close> and at \<open>[8192, 12288)\<close>, and a third object that is not mapped yet.
\<close>

definition nd_one :: vmnode where
  "nd_one = \<lparr>npages = 1, page = [0], ref = 1, type = EAGER, ip = 0, offset = 0, sz = 0\<rparr>"

definition st_two :: kstate where
  "st_two = st0\<lparr>
     vmnodes := [10 \<mapsto> nd_one, 11 \<mapsto> nd_one, 12 \<mapsto> nd_one\<lparr>vmnode.ref := 0\<rparr>],
     vmas := [20 \<mapsto> \<lparr>vma_start = 0, vma_end = 4096, va_type = PRIVATE, vma_n = 10\<rparr>,
              21 \<mapsto> \<lparr>vma_start = 8192, vma_end = 12288, va_type = PRIVATE, vma_n = 11\<rparr>],
     vmaps := [1 \<mapsto> \<lparr>cr = [20, 21], ref = 1, pml4 = []\<rparr>],
     kmem := [5, 6], objmem := [22, 23]\<rparr>"

definition st_two_removed :: kstate where
  "st_two_removed = st_two\<lparr>
     vmaps := (vmaps st_two)(1 \<mapsto> \<lparr>cr = [21], ref = 1, pml4 = []\<rparr>),
     vmas := (vmas st_two)(20 := None),
     vmnodes := (vmnodes st_two)(10 := None)\<rparr>"

text \<open>
  The parent address space 1 before a fork: one private region over the page
  \<open>[0, 4096)\<close>, whose object 10 loads on demand from the file 40.  The file holds the
  byte 65 throughout; the one page of the object, page 5, is mapped writable and has
  been written: it holds the byte 66 throughout.
\<close>

definition nd_file :: vmnode where
  "nd_file = \<lparr>npages = 1, page = [5], ref = 1, type = ONDEMAND, ip = 40, offset = 0,
              sz = 4096\<rparr>"

definition st_written :: kstate where
  "st_written = st0\<lparr>
     vmnodes := [10 \<mapsto> nd_file],
     vmas := [20 \<mapsto> \<lparr>vma_start = 0, vma_end = 4096, va_type = PRIVATE, vma_n = 10\<rparr>],
     vmaps := [1 \<mapsto> \<lparr>cr = [20], ref = 1, pml4 = [(0, 0x5007)]\<rparr>],
     inodes := [40 \<mapsto> \<lparr>idata = replicate PGSIZE 65, iref = 1\<rparr>],
     physmem := (physmem st0)(5 := replicate PGSIZE 66),
     kmem := [6, 7], objmem := [2, 21, 22, 30, 31, 32]\<rparr>"

text \<open>
  After \<open>copy(share = 1)\<close>: the child address space 2 holds the COW region 21, the
  parent holds the COW region 22 in place of its private one, both over the object 10,
  and the entry of the parent's page is read-only and tagged COW.
\<close>

definition st_fork :: kstate where
  "st_fork = st_written\<lparr>
     vmnodes := [10 \<mapsto> nd_file\<lparr>vmnode.ref := 2\<rparr>],
     vmas := [21 \<mapsto> \<lparr>vma_start = 0, vma_end = 4096, va_type = COW, vma_n = 10\<rparr>,
              22 \<mapsto> \<lparr>vma_start = 0, vma_end = 4096, va_type = COW, vma_n = 10\<rparr>],
     vmaps := [1 \<mapsto> \<lparr>cr = [22], ref = 1, pml4 = [(0, 0x5805)]\<rparr>,
               2 \<mapsto> \<lparr>cr = [21], ref = 1, pml4 = []\<rparr>],
     objmem := [30, 31, 32], tlbflushes := 1\<rparr>"

text \<open>
  The fork when operator \<open>new\<close> has two objects left, one for the child address space
  and one for the child's region: the parent has lost its region.
\<close>

definition st_lost :: kstate where
  "st_lost = st_written\<lparr>
     vmas := [21 \<mapsto> \<lparr>vma_start = 0, vma_end = 4096, va_type = COW, vma_n = 10\<rparr>],
     vmaps := [1 \<mapsto> \<lparr>cr = [], ref = 1, pml4 = [(0, 0x5805)]\<rparr>,
               2 \<mapsto> \<lparr>cr = [21], ref = 1, pml4 = []\<rparr>],
     objmem := [], tlbflushes := 1\<rparr>"

text \<open>
  After a write fault of the child at address 0: the child holds the private region 31
  over the duplicate 30, and the page 5 of the object 10, which the parent's region 22
  still refers to, holds the bytes of the file again.
\<close>

definition st_final :: kstate where
  "st_final = st_fork\<lparr>
     vmnodes := [30 \<mapsto> nd_file\<lparr>page := [6]\<rparr>, 10 \<mapsto> nd_file],
     vmas := [22 \<mapsto> \<lparr>vma_start = 0, vma_end = 4096, va_type = COW, vma_n = 10\<rparr>,
              31 \<mapsto> \<lparr>vma_start = 0, vma_end = 4096, va_type = PRIVATE, vma_n = 30\<rparr>],
     vmaps := [1 \<mapsto> \<lparr>cr = [22], ref = 1, pml4 = [(0, 0x5805)]\<rparr>,
               2 \<mapsto> \<lparr>cr = [31], ref = 1, pml4 = [(0, 0x6007)]\<rparr>],
     inodes := [40 \<mapsto> \<lparr>idata = replicate PGSIZE 65, iref = 2\<rparr>],
     physmem := (physmem st0)(5 := replicate PGSIZE 65, 6 := replicate PGSIZE 65),
     kmem := [7], objmem := [32], tlbflushes := 2\<rparr>"

definition st_wcow :: kstate where
  "st_wcow = st_final\<lparr>
     vmaps := [1 \<mapsto> \<lparr>cr = [22], ref = 1, pml4 = [(0, 0x5805)]\<rparr>,
               2 \<mapsto> \<lparr>cr = [31], ref = 1, pml4 = []\<rparr>]\<rparr>"

text \<open>
  After a read fault of the child at address 0 in the forked state: the entry of the
  child's page is present and tagged COW, not writable.
\<close>

definition st_read :: kstate where
  "st_read = st_fork\<lparr>
     vmaps := [1 \<mapsto> \<lparr>cr = [22], ref = 1, pml4 = [(0, 0x5805)]\<rparr>,
               2 \<mapsto> \<lparr>cr = [21], ref = 1, pml4 = [(0, 0x5805)]\<rparr>],
     physmem := (physmem st0)(5 := replicate PGSIZE 65)\<rparr>"

text \<open>The address space of two private regions after a read fault at address 0.\<close>

definition st_two_read :: kstate where
  "st_two_read = st_two\<lparr>
     vmnodes := (vmnodes st_two)(10 \<mapsto> nd_one\<lparr>page := [5]\<rparr>),
     vmaps := [1 \<mapsto> \<lparr>cr = [20, 21], ref = 1, pml4 = [(0, 0x5007)]\<rparr>],
     physmem := (physmem st0)(5 := replicate PGSIZE 0),
     kmem := [6]\<rparr>"

text \<open>
  The state after the read fault of the forked child, with no free page, and the state
  after a write fault of the child in it.
\<close>

definition st_read_oom :: kstate where
  "st_read_oom = st_read\<lparr>kmem := []\<rparr>"

definition st_read_oom' :: kstate where
  "st_read_oom' = st_read_oom\<lparr>objmem := [31, 32]\<rparr>"

text \<open>
  An address space with one private region of two pages over an anonymous object with no
  resident page, and one free page.
\<close>

definition st_pair :: kstate where
  "st_pair = st0\<lparr>
     vmnodes := [10 \<mapsto> nd_empty2],
     vmas := [20 \<mapsto> \<lparr>vma_start = 0, vma_end = 8192, va_type = PRIVATE, vma_n = 10\<rparr>],
     vmaps := [1 \<mapsto> \<lparr>cr = [20], ref = 1, pml4 = [(0, 0)]\<rparr>],
     kmem := [5]\<rparr>"

text \<open>
  Two address spaces after a fork that share an anonymous object of two resident pages
  through COW regions, with one free page.
\<close>

definition nd_pair :: vmnode where
  "nd_pair = \<lparr>npages = 2, page = [5, 6], ref = 2, type = EAGER, ip = 0, offset = 0, sz = 0\<rparr>"

definition st_cow_pair :: kstate where
  "st_cow_pair = st0\<lparr>
     vmnodes := [10 \<mapsto> nd_pair],
     vmas := [21 \<mapsto> \<lparr>vma_start = 0, vma_end = 8192, va_type = COW, vma_n = 10\<rparr>,
              22 \<mapsto> \<lparr>vma_start = 0, vma_end = 8192, va_type = COW, vma_n = 10\<rparr>],
     vmaps := [1 \<mapsto> \<lparr>cr = [22], ref = 1, pml4 = [(0, 0x5805)]\<rparr>,
               2 \<mapsto> \<lparr>cr = [21], ref = 1, pml4 = [(0, 0x5805)]\<rparr>],
     kmem := [7], objmem := [30, 31]\<rparr>"

section \<open>The loop of allocpg\<close>

lemma kalloc_cases:
  assumes "kalloc s = (p, s1)"
  obtains (empty) "kmem s = []" "p = 0" "s1 = s"
    | (pop) ks where "kmem s = p # ks" "s1 = s\<lparr>kmem := ks\<rparr>"
  using assms by (auto simp: kalloc_def split: list.splits)

lemma slot_Some: "slot nd i = Some q \<longleftrightarrow> i < NELEM_page \<and> i < length (page nd) \<and> q = page nd ! i"
  by (auto simp: slot_def)

lemma slot_None: "slot nd i = None \<longleftrightarrow> \<not> (i < NELEM_page \<and> i < length (page nd))"
  by (auto simp: slot_def)

lemma install_page_round:
  "vmnodes s this = Some nd \<Longrightarrow> page nd ! i = 0 \<Longrightarrow>
   install_page this i p (memset_page p 0 (s\<lparr>kmem := ks\<rparr>)) = alloc_round this i nd p ks s"
  by (simp add: install_page_def memset_page_def cmpxch_def alloc_round_def)

lemma allocpg_loop_cases:
  assumes "allocpg_loop this i s = Ret r s'" and "vmnodes s this = Some nd"
  obtains
    (stop) "\<not> i < unat (npages nd)" "r = 0" "s' = s"
  | (skip) "i < unat (npages nd)" "i < NELEM_page" "i < length (page nd)" "page nd ! i \<noteq> 0"
      "allocpg_loop this (Suc i) s = Ret r s'"
  | (oom) "i < unat (npages nd)" "i < NELEM_page" "i < length (page nd)" "page nd ! i = 0"
      "kalloc s = (0, s')" "r = - 1"
  | (round) p ks where "i < unat (npages nd)" "i < NELEM_page" "i < length (page nd)"
      "page nd ! i = 0" "kmem s = p # ks" "p \<noteq> 0"
      "allocpg_loop this (Suc i) (alloc_round this i nd p ks s) = Ret r s'"
proof (cases "i < unat (npages nd)")
  case False
  with assms have "r = 0" "s' = s"
    by (simp_all add: allocpg_loop.simps [of this i s])
  with False show ?thesis by (rule stop)
next
  case lt: True
  show ?thesis
  proof (cases "slot nd i")
    case None
    with assms lt show ?thesis
      by (simp add: allocpg_loop.simps [of this i s])
  next
    case (Some q)
    then have b: "i < NELEM_page" "i < length (page nd)" and q: "q = page nd ! i"
      by (simp_all add: slot_Some)
    show ?thesis
    proof (cases "q = 0")
      case False
      with assms lt Some have "allocpg_loop this (Suc i) s = Ret r s'"
        by (simp add: allocpg_loop.simps [of this i s])
      with lt b False q show ?thesis by (intro skip) simp_all
    next
      case z: True
      obtain p s1 where k: "kalloc s = (p, s1)" by (cases "kalloc s")
      show ?thesis
      proof (cases "p = 0")
        case True
        with assms lt Some z k have "r = - 1" "s' = s1"
          by (simp_all add: allocpg_loop.simps [of this i s])
        with lt b z q k True show ?thesis by (intro oom) simp_all
      next
        case False
        with k obtain ks where ks: "kmem s = p # ks" "s1 = s\<lparr>kmem := ks\<rparr>"
          by (cases rule: kalloc_cases) simp_all
        from assms lt Some z k False
        have "allocpg_loop this (Suc i) (install_page this i p (memset_page p 0 s1)) = Ret r s'"
          by (simp add: allocpg_loop.simps [of this i s])
        with ks assms(2) z q
        have "allocpg_loop this (Suc i) (alloc_round this i nd p ks s) = Ret r s'"
          by (simp add: install_page_round)
        with lt b z q ks False show ?thesis by (intro round) simp_all
      qed
    qed
  qed
qed

text \<open>Induction over the rounds of a returning run of the loop.\<close>

lemma allocpg_loop_induct [consumes 2, case_names stop skip oom round]:
  assumes run: "allocpg_loop this i s = Ret r s'" and nd: "vmnodes s this = Some nd"
    and stop: "\<And>i s nd. vmnodes s this = Some nd \<Longrightarrow> \<not> i < unat (npages nd) \<Longrightarrow> P i s nd 0 s"
    and skip: "\<And>i s nd r s'. vmnodes s this = Some nd \<Longrightarrow> i < unat (npages nd) \<Longrightarrow>
        i < NELEM_page \<Longrightarrow> i < length (page nd) \<Longrightarrow> page nd ! i \<noteq> 0 \<Longrightarrow>
        allocpg_loop this (Suc i) s = Ret r s' \<Longrightarrow> P (Suc i) s nd r s' \<Longrightarrow> P i s nd r s'"
    and oom: "\<And>i s nd s'. vmnodes s this = Some nd \<Longrightarrow> i < unat (npages nd) \<Longrightarrow>
        i < NELEM_page \<Longrightarrow> i < length (page nd) \<Longrightarrow> page nd ! i = 0 \<Longrightarrow>
        kalloc s = (0, s') \<Longrightarrow> P i s nd (- 1) s'"
    and round: "\<And>i s nd p ks r s'. vmnodes s this = Some nd \<Longrightarrow> i < unat (npages nd) \<Longrightarrow>
        i < NELEM_page \<Longrightarrow> i < length (page nd) \<Longrightarrow> page nd ! i = 0 \<Longrightarrow>
        kmem s = p # ks \<Longrightarrow> p \<noteq> 0 \<Longrightarrow>
        allocpg_loop this (Suc i) (alloc_round this i nd p ks s) = Ret r s' \<Longrightarrow>
        P (Suc i) (alloc_round this i nd p ks s) (nd\<lparr>page := (page nd)[i := p]\<rparr>) r s' \<Longrightarrow>
        P i s nd r s'"
  shows "P i s nd r s'"
  using run nd
proof (induction "unat (npages nd) - i" arbitrary: i s nd rule: less_induct)
  case less
  from less.prems show ?case
  proof (cases rule: allocpg_loop_cases)
    case stop
    with less.prems show ?thesis by (simp add: assms(3))
  next
    case skip
    have "P (Suc i) s nd r s'"
      using skip less.prems by - (rule less.hyps, simp_all)
    with skip less.prems show ?thesis by - (rule assms(4), simp_all)
  next
    case oom
    with less.prems show ?thesis by (simp add: assms(5))
  next
    case (round p ks)
    let ?nd = "nd\<lparr>page := (page nd)[i := p]\<rparr>"
    have nd': "vmnodes (alloc_round this i nd p ks s) this = Some ?nd"
      by (simp add: alloc_round_def)
    have "P (Suc i) (alloc_round this i nd p ks s) ?nd r s'"
      using round nd' by - (rule less.hyps, simp_all)
    with round less.prems show ?thesis by - (rule assms(6), simp_all)
  qed
qed

lemma kalloc_fail_frame:
  "kalloc s = (0, s') \<Longrightarrow> vmnodes s' = vmnodes s \<and> vmas s' = vmas s \<and> vmaps s' = vmaps s \<and>
     inodes s' = inodes s \<and> objmem s' = objmem s \<and> tlbflushes s' = tlbflushes s \<and>
     physmem s' = physmem s \<and> (kmem s' = kmem s \<or> kmem s' = tl (kmem s))"
  by (auto simp: kalloc_def split: list.splits)

lemma allocpg_loop_frame:
  assumes "allocpg_loop this i s = Ret r s'" and "vmnodes s this = Some nd"
  shows "vmas s' = vmas s \<and> vmaps s' = vmaps s \<and> inodes s' = inodes s \<and>
         objmem s' = objmem s \<and> tlbflushes s' = tlbflushes s"
  using assms
proof (induction rule: allocpg_loop_induct)
  case (oom i s nd s')
  then show ?case by (simp add: kalloc_fail_frame)
qed (simp_all add: alloc_round_def)

lemma allocpg_loop_node:
  assumes "allocpg_loop this i s = Ret r s'" and "vmnodes s this = Some nd"
  shows "\<exists>pg. vmnodes s' = (vmnodes s)(this \<mapsto> nd\<lparr>page := pg\<rparr>) \<and> length pg = length (page nd) \<and>
           (\<forall>j < length pg. page nd ! j \<noteq> 0 \<or> j < i \<longrightarrow> pg ! j = page nd ! j)"
  using assms
proof (induction rule: allocpg_loop_induct)
  case (stop i s nd)
  then show ?case by (intro exI [of _ "page nd"]) auto
next
  case (skip i s nd r s')
  then show ?case using less_Suc_eq by auto
next
  case (oom i s nd s')
  then show ?case by (intro exI [of _ "page nd"]) (auto simp: kalloc_fail_frame)
next
  case (round i s nd p ks r s')
  let ?nd2 = "nd\<lparr>page := (page nd)[i := p]\<rparr>"
  from round.IH obtain pg where
    raw: "vmnodes s' = (vmnodes (alloc_round this i nd p ks s))(this \<mapsto> ?nd2\<lparr>page := pg\<rparr>)"
      "length pg = length (page ?nd2)"
      "\<forall>j < length pg. page ?nd2 ! j \<noteq> 0 \<or> j < Suc i \<longrightarrow> pg ! j = page ?nd2 ! j"
    by blast
  then have pg: "vmnodes s' = (vmnodes (alloc_round this i nd p ks s))(this \<mapsto> nd\<lparr>page := pg\<rparr>)"
      "length pg = length (page nd)"
      "\<forall>j < length pg. (page nd)[i := p] ! j \<noteq> 0 \<or> j < Suc i \<longrightarrow> pg ! j = (page nd)[i := p] ! j"
    by simp_all
  show ?case
  proof (intro exI [of _ pg] conjI allI impI)
    show "vmnodes s' = (vmnodes s)(this \<mapsto> nd\<lparr>page := pg\<rparr>)"
      using pg(1) by (simp add: alloc_round_def)
    show "length pg = length (page nd)" by (rule pg(2))
    fix j assume j: "j < length pg" "page nd ! j \<noteq> 0 \<or> j < i"
    with round.hyps have "j \<noteq> i" by auto
    with j pg(3) show "pg ! j = page nd ! j" by auto
  qed
qed

lemma allocpg_loop_result: "allocpg_loop this i s = Ret r s' \<Longrightarrow> vmnodes s this = Some nd \<Longrightarrow> r = 0 \<or> r = - 1"
  by (induction rule: allocpg_loop_induct) simp_all

lemma allocpg_loop_kmem:
  assumes "allocpg_loop this i s = Ret r s'" and "vmnodes s this = Some nd"
  shows "\<exists>k. kmem s' = drop k (kmem s)"
  using assms
proof (induction rule: allocpg_loop_induct)
  case (stop i s nd)
  show ?case by (rule exI [of _ 0]) simp
next
  case (oom i s nd s')
  then have "kmem s' = drop 0 (kmem s) \<or> kmem s' = drop 1 (kmem s)"
    by (auto simp: kalloc_fail_frame drop_Suc)
  then show ?case by blast
next
  case (round i s nd p ks r s')
  then obtain k where "kmem s' = drop k ks" by (auto simp: alloc_round_def)
  with round.hyps have "kmem s' = drop (Suc k) (kmem s)" by simp
  then show ?case by blast
qed simp_all

lemma allocpg_loop_physmem:
  assumes "allocpg_loop this i s = Ret r s'" and "vmnodes s this = Some nd"
  shows "physmem s' q = physmem s q \<or> (q \<in> set (kmem s) \<and> physmem s' q = replicate PGSIZE 0)"
  using assms
proof (induction rule: allocpg_loop_induct)
  case (oom i s nd s')
  then show ?case by (simp add: kalloc_fail_frame)
next
  case (round i s nd p ks r s')
  then show ?case by (auto simp: alloc_round_def split: if_splits)
qed simp_all

lemma allocpg_loop_populated:
  assumes "allocpg_loop this i s = Ret r s'" and "vmnodes s this = Some nd"
    and "r = 0" and "vmnodes s' this = Some nd'"
  shows "\<forall>j. i \<le> j \<and> j < unat (npages nd) \<longrightarrow> j < length (page nd') \<and> page nd' ! j \<noteq> 0"
  using assms
proof (induction arbitrary: nd' rule: allocpg_loop_induct)
  case (stop i s nd)
  then show ?case by simp
next
  case (skip i s nd r s')
  from allocpg_loop_node [OF skip.hyps(6) skip.hyps(1)] skip.prems skip.hyps
  have "i < length (page nd') \<and> page nd' ! i \<noteq> 0" by auto
  moreover have "\<forall>j. Suc i \<le> j \<and> j < unat (npages nd) \<longrightarrow> j < length (page nd') \<and> page nd' ! j \<noteq> 0"
    using skip.IH skip.prems by simp
  ultimately show ?case by (metis Suc_leI le_neq_implies_less)
next
  case (oom i s nd s')
  then show ?case by simp
next
  case (round i s nd p ks r s')
  have nd2: "vmnodes (alloc_round this i nd p ks s) this = Some (nd\<lparr>page := (page nd)[i := p]\<rparr>)"
    by (simp add: alloc_round_def)
  from allocpg_loop_node [OF round.hyps(8) nd2] round.prems round.hyps
  have "i < length (page nd') \<and> page nd' ! i \<noteq> 0" by auto
  moreover have "\<forall>j. Suc i \<le> j \<and> j < unat (npages nd) \<longrightarrow> j < length (page nd') \<and> page nd' ! j \<noteq> 0"
    using round.IH round.prems by simp
  ultimately show ?case by (metis Suc_leI le_neq_implies_less)
qed

lemma allocpg_loop_zeroed:
  assumes "allocpg_loop this i s = Ret r s'" and "vmnodes s this = Some nd"
    and "vmnodes s' this = Some nd'" and "j < length (page nd)"
    and "page nd ! j = 0" and "page nd' ! j \<noteq> 0"
  shows "physmem s' (page nd' ! j) = replicate PGSIZE 0 \<and> page nd' ! j \<in> set (kmem s)"
  using assms
proof (induction arbitrary: nd' rule: allocpg_loop_induct)
  case (stop i s nd)
  then show ?case by simp
next
  case (skip i s nd r s')
  then show ?case by simp
next
  case (oom i s nd s')
  then show ?case by (simp add: kalloc_fail_frame)
next
  case (round i s nd p ks r s')
  let ?s2 = "alloc_round this i nd p ks s"
  let ?nd2 = "nd\<lparr>page := (page nd)[i := p]\<rparr>"
  have nd2: "vmnodes ?s2 this = Some ?nd2"
    by (simp add: alloc_round_def)
  show ?case
  proof (cases "j = i")
    case True
    from allocpg_loop_node [OF round.hyps(8) nd2] round.prems round.hyps True
    have p: "page nd' ! j = p" by auto
    have "physmem ?s2 p = replicate PGSIZE 0"
      by (simp add: alloc_round_def)
    with allocpg_loop_physmem [OF round.hyps(8) nd2, of p]
    have "physmem s' p = replicate PGSIZE 0" by auto
    with p round.hyps show ?thesis by simp
  next
    case False
    with round.prems have "j < length (page ?nd2)" "page ?nd2 ! j = 0" by simp_all
    with round.IH [OF round.prems(1)] round.prems
    have "physmem s' (page nd' ! j) = replicate PGSIZE 0 \<and> page nd' ! j \<in> set (kmem ?s2)"
      by blast
    with round.hyps show ?thesis by (simp add: alloc_round_def)
  qed
qed

lemma allocpg_loop_distinct:
  assumes "allocpg_loop this i s = Ret r s'" and "vmnodes s this = Some nd"
    and "vmnodes s' this = Some nd'" and "distinct (kmem s)"
  shows "distinct (kmem s') \<and>
    (\<forall>j < length (page nd). page nd ! j = 0 \<and> page nd' ! j \<noteq> 0 \<longrightarrow>
       page nd' ! j \<notin> set (kmem s') \<and>
       (\<forall>k < length (page nd). k \<noteq> j \<and> page nd ! k = 0 \<and> page nd' ! k \<noteq> 0 \<longrightarrow>
          page nd' ! k \<noteq> page nd' ! j))"
  using assms
proof (induction arbitrary: nd' rule: allocpg_loop_induct)
  case (stop i s nd)
  then show ?case by auto
next
  case (skip i s nd r s')
  then show ?case by simp
next
  case (oom i s nd s')
  then show ?case by (auto simp: kalloc_def split: list.splits)
next
  case (round i s nd p ks r s')
  let ?s2 = "alloc_round this i nd p ks s"
  let ?nd2 = "nd\<lparr>page := (page nd)[i := p]\<rparr>"
  have nd2: "vmnodes ?s2 this = Some ?nd2"
    by (simp add: alloc_round_def)
  have dks: "distinct ks" and pks: "p \<notin> set ks"
    using round.prems round.hyps by simp_all
  have k2: "kmem ?s2 = ks" by (simp add: alloc_round_def)
  from round.IH [OF round.prems(1)] dks k2
  have ih: "distinct (kmem s')"
    "\<And>j. j < length (page nd) \<Longrightarrow> (page nd)[i := p] ! j = 0 \<Longrightarrow> page nd' ! j \<noteq> 0 \<Longrightarrow>
       page nd' ! j \<notin> set (kmem s') \<and>
       (\<forall>k < length (page nd). k \<noteq> j \<and> (page nd)[i := p] ! k = 0 \<and> page nd' ! k \<noteq> 0 \<longrightarrow>
          page nd' ! k \<noteq> page nd' ! j)"
    by simp_all
  from allocpg_loop_node [OF round.hyps(8) nd2] round.prems round.hyps
  have pi: "page nd' ! i = p" by auto
  from allocpg_loop_kmem [OF round.hyps(8) nd2] k2
  have sub: "set (kmem s') \<subseteq> set ks" by (auto dest: in_set_dropD)
  have inks: "page nd' ! j \<in> set ks"
    if "j < length (page nd)" "j \<noteq> i" "page nd ! j = 0" "page nd' ! j \<noteq> 0" for j
    using allocpg_loop_zeroed [OF round.hyps(8) nd2 round.prems(1), of j] that k2 by simp
  show ?case
  proof (intro conjI allI impI)
    show "distinct (kmem s')" by (rule ih(1))
  next
    fix j assume j: "j < length (page nd)" "page nd ! j = 0 \<and> page nd' ! j \<noteq> 0"
    show "page nd' ! j \<notin> set (kmem s')"
    proof (cases "j = i")
      case True
      with pi pks sub show ?thesis by auto
    next
      case False
      with ih(2) [of j] j show ?thesis by simp
    qed
  next
    fix j k assume j: "j < length (page nd)" "page nd ! j = 0 \<and> page nd' ! j \<noteq> 0"
      and k: "k < length (page nd)" "k \<noteq> j \<and> page nd ! k = 0 \<and> page nd' ! k \<noteq> 0"
    show "page nd' ! k \<noteq> page nd' ! j"
    proof (cases "j = i")
      case True
      with k have "k \<noteq> i" by simp
      with inks [of k] k have "page nd' ! k \<in> set ks" by simp
      with True pi pks show ?thesis by auto
    next
      case ji: False
      show ?thesis
      proof (cases "k = i")
        case True
        from inks [of j] j ji have "page nd' ! j \<in> set ks" by simp
        with True pi pks show ?thesis by auto
      next
        case False
        with ih(2) [of j] j k ji show ?thesis by simp
      qed
    qed
  qed
qed

lemma allocpg_loop_new_distinct:
  assumes "allocpg_loop this i s = Ret r s'" and "vmnodes s this = Some nd"
    and "vmnodes s' this = Some nd'" and "distinct (kmem s)"
    and "j < length (page nd)" and "k < length (page nd)" and "j \<noteq> k"
    and "page nd ! j = 0" and "page nd ! k = 0"
    and "page nd' ! j \<noteq> 0" and "page nd' ! k \<noteq> 0"
  shows "page nd' ! k \<noteq> page nd' ! j"
  using allocpg_loop_distinct [OF assms(1-4)] assms(5-11) by blast

section \<open>The loops of vmnode::copy\<close>

lemma vmnode_ctor_lazy:
  "unat npg \<le> NELEM_page \<Longrightarrow> ntype \<noteq> EAGER \<or> i = 0 \<Longrightarrow>
   vmnode_ctor this npg ntype i off s0 s =
     Ret () (s\<lparr>vmnodes := (vmnodes s)(this \<mapsto>
       \<lparr>npages = npg, page = replicate (unat npg) 0, ref = 0, type = ntype,
        ip = i, offset = off, sz = s0\<rparr>)\<rparr>)"
  by (auto simp: vmnode_ctor_def)

lemma replicate_two: "replicate 2 x = [x, x]"
  by (simp add: numeral_2_eq_2)

lemma copy_loop_frame:
  assumes "copy_loop this c i s = Ret u s'" and "vmnodes s this = Some nd"
  shows "\<exists>m. s' = s\<lparr>physmem := m\<rparr>"
  using assms
proof (induction "unat (npages nd) - i" arbitrary: i s rule: less_induct)
  case less
  note run = less.prems(1) and nd = less.prems(2)
  show ?case
  proof (cases "i < unat (npages nd)")
    case False
    with run nd have "s' = s\<lparr>physmem := physmem s\<rparr>"
      by (simp add: copy_loop.simps [of this c i s])
    then show ?thesis by blast
  next
    case lt: True
    then have ih: "unat (npages nd) - Suc i < unat (npages nd) - i" by simp
    from run nd lt obtain q where q: "slot nd i = Some q"
      by (cases "slot nd i") (simp_all add: copy_loop.simps [of this c i s])
    show ?thesis
    proof (cases "q = 0")
      case True
      with run nd lt q have "copy_loop this c (Suc i) s = Ret u s'"
        by (simp add: copy_loop.simps [of this c i s])
      from less.hyps [OF ih this nd] show ?thesis .
    next
      case False
      with run nd lt q obtain d where
        next_run: "copy_loop this c (Suc i) (memmove_page d q s) = Ret u s'"
        by (auto simp: copy_loop.simps [of this c i s] split: option.splits if_splits)
      have "vmnodes (memmove_page d q s) this = Some nd"
        using nd by (simp add: memmove_page_def)
      from less.hyps [OF ih next_run this] obtain m where
        "s' = (memmove_page d q s)\<lparr>physmem := m\<rparr>" by blast
      then have "s' = s\<lparr>physmem := m\<rparr>" by (simp add: memmove_page_def)
      then show ?thesis by blast
    qed
  qed
qed

lemma copy_loop_spec:
  assumes "copy_loop this c i s = Ret u s'"
    and "vmnodes s this = Some nd" and "vmnodes s c = Some cd"
  shows "(\<forall>q. (\<forall>j. i \<le> j \<and> j < unat (npages nd) \<and> page nd ! j \<noteq> 0 \<longrightarrow> q \<noteq> page cd ! j) \<longrightarrow>
            physmem s' q = physmem s q) \<and>
         (\<forall>j. i \<le> j \<and> j < unat (npages nd) \<longrightarrow> j < length (page nd) \<and>
            (page nd ! j \<noteq> 0 \<longrightarrow> j < length (page cd) \<and> page cd ! j \<noteq> 0)) \<and>
         ((\<forall>j k. j < unat (npages nd) \<and> k < unat (npages nd) \<and> page nd ! k \<noteq> 0 \<longrightarrow>
              page cd ! j \<noteq> page nd ! k) \<and>
          (\<forall>j k. j < unat (npages nd) \<and> k < unat (npages nd) \<and> j \<noteq> k \<longrightarrow>
              page cd ! j \<noteq> page cd ! k) \<longrightarrow>
          (\<forall>j. i \<le> j \<and> j < unat (npages nd) \<and> page nd ! j \<noteq> 0 \<longrightarrow>
              physmem s' (page cd ! j) = physmem s (page nd ! j)))"
  using assms
proof (induction "unat (npages nd) - i" arbitrary: i s rule: less_induct)
  case less
  note run = less.prems(1) and nd = less.prems(2) and cd = less.prems(3)
  show ?case
  proof (cases "i < unat (npages nd)")
    case False
    with run nd have "s' = s" by (simp add: copy_loop.simps [of this c i s])
    with False show ?thesis by auto
  next
    case lt: True
    with run nd obtain q where q: "slot nd i = Some q"
      by (cases "slot nd i") (simp_all add: copy_loop.simps [of this c i s])
    then have iq: "i < length (page nd)" "q = page nd ! i" by (simp_all add: slot_Some)
    show ?thesis
    proof (cases "q = 0")
      case True
      with run nd lt q have next_run: "copy_loop this c (Suc i) s = Ret u s'"
        by (simp add: copy_loop.simps [of this c i s])
      have ih: "unat (npages nd) - Suc i < unat (npages nd) - i" using lt by simp
      note IH = less.hyps [OF ih next_run nd cd]
      show ?thesis
      proof (intro conjI allI impI)
        fix x assume "\<forall>j. i \<le> j \<and> j < unat (npages nd) \<and> page nd ! j \<noteq> 0 \<longrightarrow> x \<noteq> page cd ! j"
        then show "physmem s' x = physmem s x" using IH by simp
      next
        fix j assume "i \<le> j \<and> j < unat (npages nd)"
        then show "j < length (page nd)"
          using IH iq by (cases "j = i") simp_all
      next
        fix j assume "i \<le> j \<and> j < unat (npages nd)" "page nd ! j \<noteq> 0"
        then have "Suc i \<le> j" using True iq by (cases "j = i") simp_all
        then show "j < length (page cd)" "page cd ! j \<noteq> 0"
          using IH \<open>i \<le> j \<and> j < unat (npages nd)\<close> \<open>page nd ! j \<noteq> 0\<close> by simp_all
      next
        fix j
        assume sep: "(\<forall>j k. j < unat (npages nd) \<and> k < unat (npages nd) \<and> page nd ! k \<noteq> 0 \<longrightarrow>
              page cd ! j \<noteq> page nd ! k) \<and>
          (\<forall>j k. j < unat (npages nd) \<and> k < unat (npages nd) \<and> j \<noteq> k \<longrightarrow>
              page cd ! j \<noteq> page cd ! k)"
          and j: "i \<le> j \<and> j < unat (npages nd) \<and> page nd ! j \<noteq> 0"
        then have "Suc i \<le> j" using True iq by (cases "j = i") simp_all
        with IH sep j show "physmem s' (page cd ! j) = physmem s (page nd ! j)" by simp
      qed
    next
      case nz: False
      with run nd cd lt q obtain d where d: "slot cd i = Some d" "d \<noteq> 0"
        and next_run: "copy_loop this c (Suc i) (memmove_page d q s) = Ret u s'"
        by (cases "slot cd i") (auto simp: copy_loop.simps [of this c i s] split: if_splits)
      then have id: "i < length (page cd)" "d = page cd ! i" by (simp_all add: slot_Some)
      let ?s1 = "memmove_page d q s"
      have nd1: "vmnodes ?s1 this = Some nd" and cd1: "vmnodes ?s1 c = Some cd"
        using nd cd by (simp_all add: memmove_page_def)
      have ih: "unat (npages nd) - Suc i < unat (npages nd) - i" using lt by simp
      note IH = less.hyps [OF ih next_run nd1 cd1]
      have m1: "physmem ?s1 x = (if x = d then physmem s q else physmem s x)" for x
        by (simp add: memmove_page_def)
      show ?thesis
      proof (intro conjI allI impI)
        fix x assume a: "\<forall>j. i \<le> j \<and> j < unat (npages nd) \<and> page nd ! j \<noteq> 0 \<longrightarrow> x \<noteq> page cd ! j"
        then have "x \<noteq> d" using lt nz iq id by auto
        moreover from a have "physmem s' x = physmem ?s1 x" using IH by simp
        ultimately show "physmem s' x = physmem s x" by (simp add: m1)
      next
        fix j assume "i \<le> j \<and> j < unat (npages nd)"
        then show "j < length (page nd)"
          using IH iq by (cases "j = i") simp_all
      next
        fix j assume j: "i \<le> j \<and> j < unat (npages nd)" "page nd ! j \<noteq> 0"
        show "j < length (page cd)"
          using IH iq id j by (cases "j = i") simp_all
        show "page cd ! j \<noteq> 0"
          using IH iq id d j by (cases "j = i") simp_all
      next
        fix j
        assume sep: "(\<forall>j k. j < unat (npages nd) \<and> k < unat (npages nd) \<and> page nd ! k \<noteq> 0 \<longrightarrow>
              page cd ! j \<noteq> page nd ! k) \<and>
          (\<forall>j k. j < unat (npages nd) \<and> k < unat (npages nd) \<and> j \<noteq> k \<longrightarrow>
              page cd ! j \<noteq> page cd ! k)"
          and j: "i \<le> j \<and> j < unat (npages nd) \<and> page nd ! j \<noteq> 0"
        show "physmem s' (page cd ! j) = physmem s (page nd ! j)"
        proof (cases "j = i")
          case True
          have "\<forall>k. Suc i \<le> k \<and> k < unat (npages nd) \<and> page nd ! k \<noteq> 0 \<longrightarrow> d \<noteq> page cd ! k"
            using sep lt id by auto
          then have "physmem s' d = physmem ?s1 d" using IH by simp
          with True iq id show ?thesis by (simp add: memmove_page_def)
        next
          case False
          with j have "Suc i \<le> j" by simp
          with IH sep j have "physmem s' (page cd ! j) = physmem ?s1 (page nd ! j)" by simp
          moreover have "page nd ! j \<noteq> d" using sep j lt id by metis
          ultimately show ?thesis by (simp add: m1)
        qed
      qed
    qed
  qed
qed

lemma vmnode_copy_unfold:
  assumes "vmnode_copy this s = Ret c s'" and "c \<noteq> 0" and "vmnodes s this = Some nd"
  shows "\<exists>cs s2. objmem s = c # cs \<and> unat (npages nd) \<le> NELEM_page \<and>
           kmem s2 = kmem s \<and> physmem s2 = physmem s \<and> vmas s2 = vmas s \<and>
           vmaps s2 = vmaps s \<and> tlbflushes s2 = tlbflushes s \<and> objmem s2 = cs \<and>
           vmnodes s2 = (vmnodes s)(c \<mapsto> copy_init nd) \<and>
           copy_pages this c s2 = Ret c s'"
proof -
  from assms obtain cs where cs: "objmem s = c # cs"
    by (cases "objmem s")
       (auto simp: vmnode_copy_def new_obj_def copy_pages_def
             split: outcome.splits if_splits option.splits)
  have bound: "unat (npages nd) \<le> NELEM_page"
  proof (rule ccontr)
    assume "\<not> unat (npages nd) \<le> NELEM_page"
    with assms cs show False
      by (auto simp: vmnode_copy_def new_obj_def vmnode_ctor_def idup_def
               split: outcome.splits if_splits option.splits)
  qed
  show ?thesis
  proof (cases "type nd")
    case EAGER
    let ?s2 = "s\<lparr>objmem := cs, vmnodes := (vmnodes s)(c \<mapsto> copy_init nd)\<rparr>"
    from assms cs bound EAGER have "copy_pages this c ?s2 = Ret c s'"
      by (simp add: vmnode_copy_def new_obj_def vmnode_ctor_lazy copy_init_def)
    with cs bound show ?thesis
      by (intro exI [of _ cs] exI [of _ ?s2]) simp
  next
    case ONDEMAND
    with assms cs obtain f where f: "inodes s (ip nd) = Some f"
      by (cases "inodes s (ip nd)") (auto simp: vmnode_copy_def new_obj_def idup_def)
    let ?s2 = "s\<lparr>objmem := cs, inodes := (inodes s)(ip nd \<mapsto> f\<lparr>iref := iref f + 1\<rparr>),
                  vmnodes := (vmnodes s)(c \<mapsto> copy_init nd)\<rparr>"
    from assms cs bound ONDEMAND f have "copy_pages this c ?s2 = Ret c s'"
      by (simp add: vmnode_copy_def new_obj_def idup_def vmnode_ctor_lazy copy_init_def)
    with cs bound show ?thesis
      by (intro exI [of _ cs] exI [of _ ?s2]) simp
  qed
qed

lemma copy_pages_unfold:
  assumes "copy_pages this c s = Ret c s'" and "c \<noteq> 0" and "vmnodes s this = Some nd"
    and "slot nd 0 = Some p0" and "p0 \<noteq> 0"
  shows "\<exists>s1 u. allocpg_loop c 0 s = Ret 0 s1 \<and> copy_loop this c 0 s1 = Ret u s'"
proof -
  from assms obtain r s1 where a: "allocpg c s = Ret r s1"
    by (cases "allocpg c s") (simp_all add: copy_pages_def)
  with assms have nr: "\<not> r < 0"
    by (auto simp: copy_pages_def split: outcome.splits)
  obtain cd where cd: "vmnodes s c = Some cd"
    using a by (cases "vmnodes s c") (simp_all add: allocpg_def allocpg_loop.simps [of c 0 s])
  from a cd nr have "r = 0"
    using allocpg_loop_result [of c 0 s r s1 cd] by (auto simp: allocpg_def)
  moreover from assms a nr obtain u where "copy_loop this c 0 s1 = Ret u s'"
    by (cases "copy_loop this c 0 s1") (simp_all add: copy_pages_def)
  ultimately show ?thesis using a by (auto simp: allocpg_def)
qed

lemma vmnode_copy_st_half: "vmnode_copy 10 st_half = Ret 11 st_half'"
  by (simp add: vmnode_copy_def st_half_def st_half'_def st0_def nd_half_def new_obj_def
      vmnode_ctor_def NELEM_page_def copy_pages_def slot_def replicate_two
      allocpg_def allocpg_loop.simps kalloc_def install_page_def memset_page_def cmpxch_def
      copy_loop.simps memmove_page_def)

section \<open>The loop of demand_load\<close>

lemma PGSIZE_pos: "0 < PGSIZE"
  by (simp add: PGSIZE_def)

lemma readi_full:
  assumes "readi i p off cnt s = Ret (int cnt) s1" and "0 < cnt"
  shows "\<exists>f. inodes s i = Some f \<and> p \<noteq> 0 \<and> unat off + cnt \<le> length (idata f) \<and>
           s1 = s\<lparr>physmem := (physmem s)
                  (p := take cnt (drop (unat off) (idata f)) @ drop cnt (physmem s p))\<rparr>"
proof -
  from assms obtain f where f: "inodes s i = Some f"
    by (cases "inodes s i") (simp_all add: readi_def)
  define m where "m = min cnt (length (idata f) - unat off)"
  from assms f have "\<not> length (idata f) < unat off" "m \<noteq> 0" "p \<noteq> 0" "int m = int cnt"
    and s1: "s1 = s\<lparr>physmem := (physmem s)
                  (p := take m (drop (unat off) (idata f)) @ drop m (physmem s p))\<rparr>"
    by (auto simp: readi_def Let_def m_def split: if_splits)
  then have "m = cnt" by simp
  with \<open>\<not> length (idata f) < unat off\<close> have "unat off + cnt \<le> length (idata f)"
    by (simp add: m_def min_def split: if_splits)
  with f \<open>p \<noteq> 0\<close> s1 \<open>m = cnt\<close> show ?thesis by simp
qed

lemma readi_frame:
  assumes "readi i p off cnt s = Ret r s1"
  shows "\<exists>m. s1 = s\<lparr>physmem := m\<rparr>"
proof (cases "s1 = s")
  case True
  then have "s1 = s\<lparr>physmem := physmem s\<rparr>" by simp
  then show ?thesis by blast
next
  case False
  with assms show ?thesis
    by (auto simp: readi_def Let_def split: option.splits if_splits)
qed

lemma demand_load_loop_cases:
  assumes "demand_load_loop this i s = Ret r s'" and "vmnodes s this = Some nd"
  obtains
    (stop) "\<not> i < unat (sz nd)" "r = 0" "s' = s"
  | (short) "i < unat (sz nd)" "r = - 1" "\<exists>m. s' = s\<lparr>physmem := m\<rparr>"
  | (round) f where "i < unat (sz nd)" "i div PGSIZE < NELEM_page"
      "i div PGSIZE < length (page nd)" "page nd ! (i div PGSIZE) \<noteq> 0"
      "inodes s (ip nd) = Some f"
      "unat (offset nd + of_nat i) + load_cnt nd i \<le> length (idata f)"
      "demand_load_loop this (i + PGSIZE)
         (s\<lparr>physmem := (physmem s)(page nd ! (i div PGSIZE) :=
              loaded_page nd f i (physmem s (page nd ! (i div PGSIZE))))\<rparr>) = Ret r s'"
proof (cases "i < unat (sz nd)")
  case False
  with assms have "r = 0" "s' = s"
    by (simp_all add: demand_load_loop.simps [of this i s])
  with False show ?thesis by (rule stop)
next
  case lt: True
  then have cpos: "0 < load_cnt nd i"
    by (simp add: load_cnt_def PGSIZE_pos)
  from assms lt obtain p where p: "slot nd (i div PGSIZE) = Some p"
    by (cases "slot nd (i div PGSIZE)") (simp_all add: demand_load_loop.simps [of this i s])
  then have b: "i div PGSIZE < NELEM_page" "i div PGSIZE < length (page nd)"
    and pe: "p = page nd ! (i div PGSIZE)"
    by (simp_all add: slot_Some)
  from assms lt p obtain r1 s1 where
    rd: "readi (ip nd) p (offset nd + of_nat i) (load_cnt nd i) s = Ret r1 s1"
    by (cases "readi (ip nd) p (offset nd + of_nat i) (load_cnt nd i) s")
       (simp_all add: demand_load_loop.simps [of this i s] load_cnt_def)
  show ?thesis
  proof (cases "r1 = int (load_cnt nd i)")
    case False
    with assms lt p rd have "r = - 1" "s' = s1"
      by (simp_all add: demand_load_loop.simps [of this i s] load_cnt_def)
    with lt readi_frame [OF rd] show ?thesis by (intro short) simp_all
  next
    case True
    with assms lt p rd have nxt: "demand_load_loop this (i + PGSIZE) s1 = Ret r s'"
      by (simp add: demand_load_loop.simps [of this i s] load_cnt_def)
    from readi_full [OF rd [unfolded True] cpos] obtain f where
      f: "inodes s (ip nd) = Some f" "p \<noteq> 0"
        "unat (offset nd + of_nat i) + load_cnt nd i \<le> length (idata f)"
        "s1 = s\<lparr>physmem := (physmem s)
                  (p := take (load_cnt nd i) (drop (unat (offset nd + of_nat i)) (idata f)) @
                        drop (load_cnt nd i) (physmem s p))\<rparr>"
      by blast
    show ?thesis
      using lt b f(1,2,3) nxt unfolding f(4) pe
      by (intro round [of f]) (simp_all add: loaded_page_def)
  qed
qed

lemma demand_load_loop_frame:
  assumes "demand_load_loop this i s = Ret r s'" and "vmnodes s this = Some nd"
  shows "(\<exists>m. s' = s\<lparr>physmem := m\<rparr>) \<and> (r = 0 \<or> r = - 1)"
  using assms
proof (induction "unat (sz nd) - i" arbitrary: i s rule: less_induct)
  case less
  from less.prems show ?case
  proof (cases rule: demand_load_loop_cases)
    case stop
    then have "s' = s\<lparr>physmem := physmem s\<rparr>" by simp
    with stop show ?thesis by blast
  next
    case short
    then show ?thesis by simp
  next
    case (round f)
    let ?s1 = "s\<lparr>physmem := (physmem s)(page nd ! (i div PGSIZE) :=
              loaded_page nd f i (physmem s (page nd ! (i div PGSIZE))))\<rparr>"
    have "unat (sz nd) - (i + PGSIZE) < unat (sz nd) - i"
      using round(1) PGSIZE_pos by simp
    moreover have "vmnodes ?s1 this = Some nd" using less.prems by simp
    ultimately have "(\<exists>m. s' = ?s1\<lparr>physmem := m\<rparr>) \<and> (r = 0 \<or> r = - 1)"
      using less.hyps round(7) by blast
    then show ?thesis by auto
  qed
qed

lemma demand_load_loop_spec:
  assumes "demand_load_loop this (k0 * PGSIZE) s = Ret 0 s'" and "vmnodes s this = Some nd"
  shows "(\<forall>k. k0 \<le> k \<and> k * PGSIZE < unat (sz nd) \<longrightarrow>
            k < length (page nd) \<and> k < NELEM_page \<and> page nd ! k \<noteq> 0 \<and>
            (\<exists>f. inodes s (ip nd) = Some f \<and>
               unat (offset nd + of_nat (k * PGSIZE)) + load_cnt nd (k * PGSIZE)
                 \<le> length (idata f))) \<and>
         (\<forall>q. (\<forall>k. k0 \<le> k \<and> k * PGSIZE < unat (sz nd) \<longrightarrow> q \<noteq> page nd ! k) \<longrightarrow>
            physmem s' q = physmem s q) \<and>
         ((\<forall>j k. j * PGSIZE < unat (sz nd) \<and> k * PGSIZE < unat (sz nd) \<and> j \<noteq> k \<longrightarrow>
              page nd ! j \<noteq> page nd ! k) \<longrightarrow>
          (\<forall>f k. inodes s (ip nd) = Some f \<and> k0 \<le> k \<and> k * PGSIZE < unat (sz nd) \<longrightarrow>
              physmem s' (page nd ! k) =
                loaded_page nd f (k * PGSIZE) (physmem s (page nd ! k))))"
  using assms
proof (induction "unat (sz nd) - k0 * PGSIZE" arbitrary: k0 s rule: less_induct)
  case less
  note nd = less.prems(2)
  have div: "k0 * PGSIZE div PGSIZE = k0" using PGSIZE_pos by simp
  from less.prems show ?case
  proof (cases rule: demand_load_loop_cases)
    case stop
    have none: "\<not> (k0 \<le> k \<and> k * PGSIZE < unat (sz nd))" for k
    proof
      assume "k0 \<le> k \<and> k * PGSIZE < unat (sz nd)"
      then have "k0 * PGSIZE \<le> k * PGSIZE" "k * PGSIZE < unat (sz nd)" by simp_all
      with stop(1) show False by linarith
    qed
    show ?thesis unfolding stop(3) using none by blast
  next
    case short
    then show ?thesis by simp
  next
    case (round f)
    let ?p = "page nd ! k0"
    let ?s1 = "s\<lparr>physmem := (physmem s)(?p :=
              loaded_page nd f (k0 * PGSIZE) (physmem s ?p))\<rparr>"
    have run1: "demand_load_loop this (Suc k0 * PGSIZE) ?s1 = Ret 0 s'"
      using round(7) by (simp add: div add.commute)
    have dec: "unat (sz nd) - Suc k0 * PGSIZE < unat (sz nd) - k0 * PGSIZE"
      using round(1) PGSIZE_pos by simp
    have nd1: "vmnodes ?s1 this = Some nd" using nd by simp
    note IH = less.hyps [OF dec run1 nd1]
    have split: "k0 \<le> k \<longleftrightarrow> k = k0 \<or> Suc k0 \<le> k" for k by auto
    show ?thesis
    proof (intro conjI allI impI)
      fix k assume k: "k0 \<le> k \<and> k * PGSIZE < unat (sz nd)"
      have "k = k0 \<or> (Suc k0 \<le> k \<and> k * PGSIZE < unat (sz nd))" using k by auto
      then show "k < length (page nd)" "k < NELEM_page" "page nd ! k \<noteq> 0"
        using IH round(2,3,4) by (auto simp: div)
      show "\<exists>f. inodes s (ip nd) = Some f \<and>
               unat (offset nd + of_nat (k * PGSIZE)) + load_cnt nd (k * PGSIZE)
                 \<le> length (idata f)"
      proof (cases "k = k0")
        case True
        with round(5,6) show ?thesis by simp
      next
        case False
        with k have "Suc k0 \<le> k \<and> k * PGSIZE < unat (sz nd)" by simp
        with IH show ?thesis by simp
      qed
    next
      fix q assume q: "\<forall>k. k0 \<le> k \<and> k * PGSIZE < unat (sz nd) \<longrightarrow> q \<noteq> page nd ! k"
      then have "q \<noteq> ?p" using round(1) by auto
      moreover from q have "physmem s' q = physmem ?s1 q" using IH by simp
      ultimately show "physmem s' q = physmem s q" by simp
    next
      fix g k
      assume dist: "\<forall>j k. j * PGSIZE < unat (sz nd) \<and> k * PGSIZE < unat (sz nd) \<and> j \<noteq> k \<longrightarrow>
              page nd ! j \<noteq> page nd ! k"
        and k: "inodes s (ip nd) = Some g \<and> k0 \<le> k \<and> k * PGSIZE < unat (sz nd)"
      show "physmem s' (page nd ! k) = loaded_page nd g (k * PGSIZE) (physmem s (page nd ! k))"
      proof (cases "k = k0")
        case True
        have "\<forall>j. Suc k0 \<le> j \<and> j * PGSIZE < unat (sz nd) \<longrightarrow> ?p \<noteq> page nd ! j"
          using dist round(1) by auto
        then have "physmem s' ?p = physmem ?s1 ?p" using IH by simp
        with True k round(5) show ?thesis by simp
      next
        case False
        with k have k': "Suc k0 \<le> k \<and> k * PGSIZE < unat (sz nd)" by simp
        have "inodes ?s1 (ip nd) = Some g" using k by simp
        with IH dist k' have "physmem s' (page nd ! k) =
            loaded_page nd g (k * PGSIZE) (physmem ?s1 (page nd ! k))"
          by blast
        moreover have "page nd ! k \<noteq> ?p" using dist k round(1) False by auto
        ultimately show ?thesis by simp
      qed
    qed
  qed
qed

lemma loaded_page_nth:
  assumes "unat (offset nd + of_nat i) + load_cnt nd i \<le> length (idata f)"
    and "b < PGSIZE"
  shows "loaded_page nd f i (replicate PGSIZE 0) ! b =
           (if i + b < unat (sz nd) then idata f ! (unat (offset nd + of_nat i) + b) else 0)"
proof -
  let ?c = "load_cnt nd i"
  let ?front = "take ?c (drop (unat (offset nd + of_nat i)) (idata f))"
  have len: "length ?front = ?c" using assms(1) by simp
  have c_le: "?c \<le> PGSIZE" by (simp add: load_cnt_def)
  show ?thesis
  proof (cases "i + b < unat (sz nd)")
    case True
    with assms(2) have "b < ?c" by (auto simp: load_cnt_def)
    with len have "(?front @ drop ?c (replicate PGSIZE 0)) ! b = ?front ! b"
      by (simp add: nth_append)
    also have "\<dots> = idata f ! (unat (offset nd + of_nat i) + b)"
      using \<open>b < ?c\<close> assms(1) by simp
    finally show ?thesis using True by (simp add: loaded_page_def)
  next
    case False
    with assms(2) have ge: "?c \<le> b" by (auto simp: load_cnt_def split: if_splits)
    with len have "(?front @ drop ?c (replicate PGSIZE 0)) ! b =
        drop ?c (replicate PGSIZE (0::u8)) ! (b - ?c)"
      by (simp add: nth_append)
    also have "\<dots> = 0" using ge assms(2) c_le by simp
    finally show ?thesis using False by (simp add: loaded_page_def)
  qed
qed

lemma demand_load_loop_loaded:
  assumes "demand_load_loop this (k0 * PGSIZE) s = Ret 0 s'" and "vmnodes s this = Some nd"
    and "\<forall>j k. j * PGSIZE < unat (sz nd) \<and> k * PGSIZE < unat (sz nd) \<and> j \<noteq> k \<longrightarrow>
           page nd ! j \<noteq> page nd ! k"
    and "inodes s (ip nd) = Some f" and "k0 \<le> k" and "k * PGSIZE < unat (sz nd)"
  shows "physmem s' (page nd ! k) = loaded_page nd f (k * PGSIZE) (physmem s (page nd ! k))"
  using demand_load_loop_spec [OF assms(1,2)] assms(3-6) by blast

lemma demand_load_loop_untouched:
  assumes "demand_load_loop this (k0 * PGSIZE) s = Ret 0 s'" and "vmnodes s this = Some nd"
    and "\<forall>k. k0 \<le> k \<and> k * PGSIZE < unat (sz nd) \<longrightarrow> q \<noteq> page nd ! k"
  shows "physmem s' q = physmem s q"
  using demand_load_loop_spec [OF assms(1,2)] assms(3) by blast

lemma demand_load_loop_slots:
  assumes "demand_load_loop this (k0 * PGSIZE) s = Ret 0 s'" and "vmnodes s this = Some nd"
    and "k0 \<le> k" and "k * PGSIZE < unat (sz nd)"
  shows "k < length (page nd) \<and> k < NELEM_page \<and> page nd ! k \<noteq> 0 \<and>
         (\<exists>f. inodes s (ip nd) = Some f \<and>
            unat (offset nd + of_nat (k * PGSIZE)) + load_cnt nd (k * PGSIZE)
              \<le> length (idata f))"
  using demand_load_loop_spec [OF assms(1,2)] assms(3,4) by blast

lemma vmnode_ctor_st_file: "vmnode_ctor 10 1 EAGER 20 0 5 st_file = Ret () st_file'"
proof -
  have pg: "5 < PGSIZE" "0 div PGSIZE = 0" "\<not> PGSIZE < 5"
    "PGSIZE - Suc (Suc (Suc (Suc (Suc 0)))) = PGSIZE - 5"
    by (simp_all add: PGSIZE_def)
  show ?thesis
    by (simp add: vmnode_ctor_def st_file_def st_file'_def st0_def NELEM_page_def
        allocpg_def allocpg_loop.simps slot_def kalloc_def install_page_def memset_page_def
        cmpxch_def demand_load_def demand_load_loop.simps readi_def pg)
qed

section \<open>Claims about vmnode\<close>

text \<open>
  C10.  Every page that \<open>vmnode::allocpg\<close> installs into a slot is zero-filled: for
  every slot that was empty before the call and is populated after it, whether the call
  returned \<open>0\<close> or stopped half-way with \<open>-1\<close>, all \<open>PGSIZE\<close> bytes of the page in the
  slot are zero.  (\<open>memset\<close> precedes the compare-and-swap that installs the page, and the
  rest of the loop writes nothing but zeros.)
\<close>

theorem allocpg_installs_zeroed_pages:
  assumes "allocpg this s = Ret r s'"
    and "vmnodes s this = Some nd" and "vmnodes s' this = Some nd'"
    and "j < length (page nd)" and "page nd ! j = 0" and "page nd' ! j \<noteq> 0"
  shows "physmem s' (page nd' ! j) = replicate PGSIZE 0 \<and>
         length (physmem s' (page nd' ! j)) = PGSIZE"
  using allocpg_loop_zeroed [of this 0 s r s' nd nd' j] assms
  by (simp add: allocpg_def)

lemma allocpg_st_alloc:
  "allocpg 10 st_alloc =
     Ret 0 (st_alloc\<lparr>kmem := [],
       physmem := (physmem st_alloc)(5 := replicate PGSIZE 0, 6 := replicate PGSIZE 0),
       vmnodes := [10 \<mapsto> nd_empty2\<lparr>page := [5, 6]\<rparr>]\<rparr>)"
  by (simp add: allocpg_def allocpg_loop.simps st_alloc_def st0_def nd_empty2_def slot_def
      NELEM_page_def kalloc_def install_page_def memset_page_def cmpxch_def)

theorem allocpg_installs_zeroed_pages_witness:
  "allocpg 10 st_alloc =
     Ret 0 (st_alloc\<lparr>kmem := [],
       physmem := (physmem st_alloc)(5 := replicate PGSIZE 0, 6 := replicate PGSIZE 0),
       vmnodes := [10 \<mapsto> nd_empty2\<lparr>page := [5, 6]\<rparr>]\<rparr>) \<and>
   physmem (st_alloc\<lparr>kmem := [],
       physmem := (physmem st_alloc)(5 := replicate PGSIZE 0, 6 := replicate PGSIZE 0),
       vmnodes := [10 \<mapsto> nd_empty2\<lparr>page := [5, 6]\<rparr>]\<rparr>) 6 = replicate PGSIZE 0"
proof -
  have "vmnodes st_alloc 10 = Some nd_empty2"
    by (simp add: st_alloc_def)
  from allocpg_installs_zeroed_pages [OF allocpg_st_alloc this, of _ 1]
  show ?thesis
    by (simp add: allocpg_st_alloc nd_empty2_def)
qed

text \<open>
  C7.  \<open>vmnode::copy\<close> of a backing object whose first slot is empty returns at once:
  given that operator \<open>new\<close> has an object \<open>c\<close> left, the call returns \<open>c\<close>, the
  new object has the page count of the source and no resident page, and neither the free
  list of the page allocator nor the content of any physical page has changed.
\<close>

theorem vmnode_copy_first_slot_empty:
  assumes nd: "vmnodes s this = Some nd" and first: "slot nd 0 = Some 0"
    and obj: "objmem s = c # cs" "c \<noteq> 0" "c \<noteq> this"
    and bound: "unat (npages nd) \<le> NELEM_page"
    and ino: "type nd = ONDEMAND \<longrightarrow> inodes s (ip nd) \<noteq> None"
  shows "\<exists>s'. vmnode_copy this s = Ret c s' \<and>
           kmem s' = kmem s \<and> physmem s' = physmem s \<and>
           vmnodes s' = (vmnodes s)(c \<mapsto>
             \<lparr>npages = npages nd, page = replicate (unat (npages nd)) 0, ref = 0,
              type = type nd, ip = (if type nd = ONDEMAND then ip nd else 0),
              offset = offset nd, sz = sz nd\<rparr>)"
proof (cases "type nd")
  case EAGER
  with nd first obj bound show ?thesis
    by (simp add: vmnode_copy_def new_obj_def vmnode_ctor_lazy copy_pages_def)
next
  case ONDEMAND
  with ino obtain f where "inodes s (ip nd) = Some f" by auto
  with ONDEMAND nd first obj bound show ?thesis
    by (simp add: vmnode_copy_def new_obj_def idup_def vmnode_ctor_lazy copy_pages_def)
qed

theorem vmnode_copy_first_slot_empty_witness:
  "vmnode_copy 10 st_copy0 =
     Ret 11 (st_copy0\<lparr>objmem := [],
       vmnodes := [10 \<mapsto> nd_empty2, 11 \<mapsto> nd_empty2\<lparr>vmnode.ref := 0\<rparr>]\<rparr>)"
proof -
  have "vmnodes st_copy0 10 = Some nd_empty2" "slot nd_empty2 0 = Some 0"
    "objmem st_copy0 = 11 # []" "unat (npages nd_empty2) \<le> NELEM_page"
    "type nd_empty2 = ONDEMAND \<longrightarrow> inodes st_copy0 (ip nd_empty2) \<noteq> None"
    by (simp_all add: st_copy0_def nd_empty2_def slot_def NELEM_page_def)
  from vmnode_copy_first_slot_empty [OF this(1,2,3) _ _ this(4,5)]
  obtain s' where "vmnode_copy 10 st_copy0 = Ret 11 s'" by auto
  moreover have "vmnode_copy 10 st_copy0 =
     Ret 11 (st_copy0\<lparr>objmem := [],
       vmnodes := [10 \<mapsto> nd_empty2, 11 \<mapsto> nd_empty2\<lparr>vmnode.ref := 0\<rparr>]\<rparr>)"
    by (simp add: vmnode_copy_def st_copy0_def st0_def nd_empty2_def new_obj_def
        vmnode_ctor_def NELEM_page_def copy_pages_def slot_def replicate_two)
  ultimately show ?thesis by simp
qed

text \<open>
  C8, as amended.  \<open>vmnode::copy\<close> of a backing object whose first page is resident
  populates every slot of the duplicate (\<open>allocpg\<close> on the new object): a page that is
  resident in the source is copied byte for byte, a slot that is absent in the source
  holds a zero-filled page in the duplicate, and the pages of the source keep their
  content.  The free pages are distinct and none of them is a page of the source.
\<close>

theorem vmnode_copy_first_slot_resident:
  assumes run: "vmnode_copy this s = Ret c s'" and c: "c \<noteq> 0"
    and nd: "vmnodes s this = Some nd" and first: "slot nd 0 = Some p0" "p0 \<noteq> 0"
    and fresh: "this \<notin> set (objmem s)"
    and free: "distinct (kmem s)" "\<forall>p \<in> set (page nd). p \<notin> set (kmem s)"
  shows "\<exists>cd. vmnodes s' c = Some cd \<and> npages cd = npages nd \<and>
           length (page cd) = unat (npages nd) \<and>
           (\<forall>j < unat (npages nd).
              page cd ! j \<noteq> 0 \<and>
              physmem s' (page cd ! j) =
                (if page nd ! j \<noteq> 0 then physmem s (page nd ! j) else replicate PGSIZE 0) \<and>
              physmem s' (page nd ! j) = physmem s (page nd ! j))"
proof -
  from vmnode_copy_unfold [OF run c nd] obtain cs s2 where
    cs: "objmem s = c # cs" and
    s2: "kmem s2 = kmem s" "physmem s2 = physmem s"
      "vmnodes s2 = (vmnodes s)(c \<mapsto> copy_init nd)" and
    pages: "copy_pages this c s2 = Ret c s'"
    by blast
  from cs fresh have neq: "c \<noteq> this" by auto
  with s2 nd have nd2: "vmnodes s2 this = Some nd" by simp
  have cd2: "vmnodes s2 c = Some (copy_init nd)" using s2 by simp
  from copy_pages_unfold [OF pages c nd2 first] obtain s4 u where
    alloc: "allocpg_loop c 0 s2 = Ret 0 s4" and loop: "copy_loop this c 0 s4 = Ret u s'"
    by blast
  let ?n = "unat (npages nd)"
  from allocpg_loop_node [OF alloc cd2] obtain pg where
    pg: "vmnodes s4 = (vmnodes s2)(c \<mapsto> (copy_init nd)\<lparr>page := pg\<rparr>)"
      "length pg = ?n"
    by (auto simp: copy_init_def)
  let ?cd = "(copy_init nd)\<lparr>page := pg\<rparr>"
  have cd4: "vmnodes s4 c = Some ?cd" using pg by simp
  have nd4: "vmnodes s4 this = Some nd" using pg nd2 neq by simp
  have np: "npages ?cd = npages nd" "page ?cd = pg" "npages (copy_init nd) = npages nd"
    by (simp_all add: copy_init_def)
  have init0: "page (copy_init nd) ! j = 0" "j < length (page (copy_init nd))" if "j < ?n" for j
    using that by (simp_all add: copy_init_def)
  have pop: "pg ! j \<noteq> 0" if "j < ?n" for j
    using allocpg_loop_populated [OF alloc cd2 refl cd4] that np by simp
  have zeroed: "physmem s4 (pg ! j) = replicate PGSIZE 0" "pg ! j \<in> set (kmem s)" if "j < ?n" for j
    using allocpg_loop_zeroed [OF alloc cd2 cd4, of j] init0 [OF that] pop [OF that] s2 np
    by simp_all
  have dist: "pg ! j \<noteq> pg ! k" if "j < ?n" "k < ?n" "j \<noteq> k" for j k
    using allocpg_loop_distinct [OF alloc cd2 cd4] free s2 init0 [OF that(1)] init0 [OF that(2)]
      pop [OF that(1)] pop [OF that(2)] that np
    by (metis (no_types, lifting))
  have mem4: "physmem s4 q = physmem s q" if "q \<notin> set (kmem s)" for q
    using allocpg_loop_physmem [OF alloc cd2, of q] that s2 by simp
  note spec = copy_loop_spec [OF loop nd4 cd4, unfolded np]
  have len: "j < length (page nd)" if "j < ?n" for j
    using spec that by simp
  have src_free: "page nd ! k \<notin> set (kmem s)" if "k < ?n" for k
    using free(2) len [OF that] by simp
  have sep: "pg ! j \<noteq> page nd ! k" if "j < ?n" "k < ?n" for j k
    using zeroed(2) [OF that(1)] src_free [OF that(2)] by metis
  have copied: "physmem s' (pg ! j) = physmem s4 (page nd ! j)" if "j < ?n" "page nd ! j \<noteq> 0" for j
    using spec sep dist that by simp
  have untouched: "physmem s' q = physmem s4 q"
    if "\<forall>j. j < ?n \<and> page nd ! j \<noteq> 0 \<longrightarrow> q \<noteq> pg ! j" for q
    using spec that by simp
  from copy_loop_frame [OF loop nd4] obtain m where "s' = s4\<lparr>physmem := m\<rparr>" by blast
  then have "vmnodes s' c = Some ?cd" using cd4 by simp
  moreover have "page ?cd ! j \<noteq> 0 \<and>
       physmem s' (page ?cd ! j) =
         (if page nd ! j \<noteq> 0 then physmem s (page nd ! j) else replicate PGSIZE 0) \<and>
       physmem s' (page nd ! j) = physmem s (page nd ! j)" if j: "j < ?n" for j
  proof (intro conjI)
    show "page ?cd ! j \<noteq> 0" using pop [OF j] by simp
    show "physmem s' (page ?cd ! j) =
         (if page nd ! j \<noteq> 0 then physmem s (page nd ! j) else replicate PGSIZE 0)"
    proof (cases "page nd ! j = 0")
      case True
      have "\<forall>k. k < ?n \<and> page nd ! k \<noteq> 0 \<longrightarrow> pg ! j \<noteq> pg ! k"
        using dist j True by metis
      from untouched [OF this] zeroed(1) [OF j] True show ?thesis by simp
    next
      case False
      with copied [OF j] mem4 [OF src_free [OF j]] show ?thesis by simp
    qed
    have "\<forall>k. k < ?n \<and> page nd ! k \<noteq> 0 \<longrightarrow> page nd ! j \<noteq> pg ! k"
      using sep j by metis
    from untouched [OF this] mem4 [OF src_free [OF j]]
    show "physmem s' (page nd ! j) = physmem s (page nd ! j)" by simp
  qed
  ultimately show ?thesis
    using pg(2) by (intro exI [of _ ?cd]) (simp add: copy_init_def)
qed

text \<open>
  C8 as stated fails: the second slot of the half-filled object \<open>nd_half\<close> is absent,
  and the same slot of its duplicate holds page 7.
\<close>

theorem vmnode_copy_absent_slot_counterexample:
  "vmnode_copy 10 st_half = Ret 11 st_half' \<and>
   vmnodes st_half 10 = Some nd_half \<and> slot nd_half 0 = Some 5 \<and> slot nd_half 1 = Some 0 \<and>
   vmnodes st_half' 11 = Some (nd_half\<lparr>page := [6, 7], vmnode.ref := 0\<rparr>) \<and>
   slot (nd_half\<lparr>page := [6, 7], vmnode.ref := 0\<rparr>) 1 = Some 7"
  by (simp add: vmnode_copy_st_half)
     (simp add: st_half_def st_half'_def nd_half_def slot_def NELEM_page_def)

theorem vmnode_copy_first_slot_resident_witness:
  "vmnode_copy 10 st_half = Ret 11 st_half' \<and>
   physmem st_half' 6 = replicate PGSIZE 65 \<and> physmem st_half' 7 = replicate PGSIZE 0 \<and>
   physmem st_half' 5 = replicate PGSIZE 65"
proof -
  have h: "vmnodes st_half 10 = Some nd_half" "slot nd_half 0 = Some 5" "(5::nat) \<noteq> 0"
    "10 \<notin> set (objmem st_half)" "distinct (kmem st_half)"
    "\<forall>p \<in> set (page nd_half). p \<notin> set (kmem st_half)" "(11::nat) \<noteq> 0"
    by (simp_all add: st_half_def nd_half_def slot_def NELEM_page_def)
  from vmnode_copy_first_slot_resident [OF vmnode_copy_st_half h(7) h(1,2,3,4,5,6)]
  obtain cd where cd: "vmnodes st_half' 11 = Some cd"
    "\<forall>j < unat (npages nd_half). page cd ! j \<noteq> 0 \<and>
       physmem st_half' (page cd ! j) =
         (if page nd_half ! j \<noteq> 0 then physmem st_half (page nd_half ! j)
          else replicate PGSIZE 0) \<and>
       physmem st_half' (page nd_half ! j) = physmem st_half (page nd_half ! j)"
    by blast
  from cd(1) have pg: "page cd = [6, 7]"
    by (auto simp: st_half'_def)
  have n2: "unat (npages nd_half) = 2" by (simp add: nd_half_def)
  from cd(2) [rule_format, of 0] cd(2) [rule_format, of 1] n2 have "physmem st_half' (page cd ! 0) = physmem st_half 5"
    "physmem st_half' (page cd ! 1) = replicate PGSIZE 0"
    "physmem st_half' (page nd_half ! 0) = physmem st_half (page nd_half ! 0)"
    by (simp_all add: nd_half_def)
  with pg show ?thesis
    by (simp add: vmnode_copy_st_half) (simp add: st_half_def nd_half_def)
qed

text \<open>
  C9, as amended.  The constructor of a backing object with the EAGER policy and a
  backing file allocates and loads before it returns: when it returns, every slot of the
  object is populated and the object holds the \<open>sz\<close> bytes of the file from \<open>offset\<close> on,
  page by page, followed by zeros.  (A failure to allocate or to load is a failed
  assertion.)  The free pages are distinct.
\<close>

theorem vmnode_ctor_eager_file:
  assumes run: "vmnode_ctor this npg EAGER i off s0 s = Ret u s'"
    and ino: "i \<noteq> 0" "inodes s i = Some f"
    and free: "distinct (kmem s)"
  shows "\<exists>nd. vmnodes s' this = Some nd \<and> npages nd = npg \<and> length (page nd) = unat npg \<and>
           (\<forall>k < unat npg. page nd ! k \<noteq> 0 \<and>
              (\<forall>b < PGSIZE. physmem s' (page nd ! k) ! b =
                 (if k * PGSIZE + b < unat s0
                  then idata f ! (unat (off + of_nat (k * PGSIZE)) + b) else 0)))"
proof -
  let ?init = "\<lparr>npages = npg, page = replicate (unat npg) 0, ref = 0, type = EAGER,
                ip = i, offset = off, sz = s0\<rparr>"
  let ?s1 = "s\<lparr>vmnodes := (vmnodes s)(this \<mapsto> ?init)\<rparr>"
  from run ino(1) obtain r s2 where alloc0: "allocpg this ?s1 = Ret r s2"
    by (cases "allocpg this ?s1") (simp_all add: vmnode_ctor_def Let_def split: if_splits)
  from run ino(1) alloc0 have r: "r = 0"
    by (simp add: vmnode_ctor_def Let_def split: if_splits)
  from alloc0 r have alloc: "allocpg_loop this 0 ?s1 = Ret 0 s2"
    by (simp add: allocpg_def)
  from run ino(1) alloc0 r have load: "demand_load_loop this (0 * PGSIZE) s2 = Ret 0 s'"
    by (auto simp: vmnode_ctor_def Let_def demand_load_def split: if_splits outcome.splits)
  have nd1: "vmnodes ?s1 this = Some ?init" by simp
  let ?n = "unat npg"
  from allocpg_loop_node [OF alloc nd1] obtain pg where
    pg: "vmnodes s2 = (vmnodes ?s1)(this \<mapsto> ?init\<lparr>page := pg\<rparr>)" "length pg = ?n"
    by auto
  let ?nd = "?init\<lparr>page := pg\<rparr>"
  have nd2: "vmnodes s2 this = Some ?nd" using pg by simp
  have pop: "pg ! j \<noteq> 0" if "j < ?n" for j
    using allocpg_loop_populated [OF alloc nd1 refl nd2] that by simp
  have zeroed: "physmem s2 (pg ! j) = replicate PGSIZE 0" if "j < ?n" for j
    using allocpg_loop_zeroed [OF alloc nd1 nd2, of j] pop [OF that] that by simp
  have dist: "pg ! j \<noteq> pg ! k" if "j < ?n" "k < ?n" "j \<noteq> k" for j k
  proof -
    have "page ?init ! j = 0" "page ?init ! k = 0" "j < length (page ?init)"
      "k < length (page ?init)" "page ?nd ! j \<noteq> 0" "page ?nd ! k \<noteq> 0"
      using that pop by simp_all
    moreover have "distinct (kmem ?s1)" using free by simp
    ultimately have "page ?nd ! k \<noteq> page ?nd ! j"
      using that(3) by (intro allocpg_loop_new_distinct [OF alloc nd1 nd2]) simp_all
    then show ?thesis by simp
  qed
  have ino2: "inodes s2 (ip ?nd) = Some f"
    using allocpg_loop_frame [OF alloc nd1] ino by simp
  have inl: "k < ?n" if "k * PGSIZE < unat s0" for k
    using demand_load_loop_slots [OF load nd2, of k] that pg(2) by simp
  have fits: "unat (off + of_nat (k * PGSIZE)) + load_cnt ?nd (k * PGSIZE) \<le> length (idata f)"
    if "k * PGSIZE < unat s0" for k
    using demand_load_loop_slots [OF load nd2, of k] that ino2 by auto
  have dist': "\<forall>j k. j * PGSIZE < unat (sz ?nd) \<and> k * PGSIZE < unat (sz ?nd) \<and> j \<noteq> k \<longrightarrow>
      page ?nd ! j \<noteq> page ?nd ! k"
    using dist inl by simp
  have loaded: "physmem s' (pg ! k) = loaded_page ?nd f (k * PGSIZE) (replicate PGSIZE 0)"
    if "k * PGSIZE < unat s0" for k
  proof -
    have "physmem s' (page ?nd ! k) = loaded_page ?nd f (k * PGSIZE) (physmem s2 (page ?nd ! k))"
      using dist' ino2 that by (intro demand_load_loop_loaded [OF load nd2]) simp_all
    with zeroed [OF inl [OF that]] show ?thesis by simp
  qed
  have untouched: "physmem s' (pg ! k) = replicate PGSIZE 0"
    if "k < ?n" "\<not> k * PGSIZE < unat s0" for k
  proof -
    have "\<forall>j. 0 \<le> j \<and> j * PGSIZE < unat (sz ?nd) \<longrightarrow> pg ! k \<noteq> page ?nd ! j"
      using dist [OF that(1)] inl that(2) by auto
    then have "physmem s' (pg ! k) = physmem s2 (pg ! k)"
      by (intro demand_load_loop_untouched [OF load nd2]) simp
    with zeroed [OF that(1)] show ?thesis by simp
  qed
  from demand_load_loop_frame [OF load nd2] obtain m where "s' = s2\<lparr>physmem := m\<rparr>"
    by blast
  with nd2 have nd': "vmnodes s' this = Some ?nd" by simp
  have bytes: "physmem s' (page ?nd ! k) ! b =
      (if k * PGSIZE + b < unat s0 then idata f ! (unat (off + of_nat (k * PGSIZE)) + b) else 0)"
    if k: "k < ?n" and b: "b < PGSIZE" for k b
  proof (cases "k * PGSIZE < unat s0")
    case True
    from loaded_page_nth [of ?nd "k * PGSIZE" f b] fits [OF True] b loaded [OF True]
    show ?thesis by simp
  next
    case False
    with untouched [OF k False] b show ?thesis by simp
  qed
  show ?thesis
    using nd' pg(2) pop bytes by (intro exI [of _ ?nd]) simp
qed

text \<open>
  C9 as stated fails: an object constructed with the EAGER policy and no backing file,
  the way anonymous memory is, has no page allocated although two pages are free.
\<close>

theorem vmnode_ctor_eager_no_file_counterexample:
  "new_vmnode 2 EAGER 0 0 0 st_anon =
     Ret 10 (st_anon\<lparr>objmem := [], vmnodes := [10 \<mapsto> nd_empty2\<lparr>vmnode.ref := 0\<rparr>]\<rparr>) \<and>
   page (nd_empty2\<lparr>vmnode.ref := 0\<rparr>) = [0, 0] \<and>
   kmem (st_anon\<lparr>objmem := [], vmnodes := [10 \<mapsto> nd_empty2\<lparr>vmnode.ref := 0\<rparr>]\<rparr>) = [5, 6]"
  by (simp add: new_vmnode_def new_obj_def vmnode_ctor_def st_anon_def st0_def nd_empty2_def
      NELEM_page_def replicate_two)

theorem vmnode_ctor_eager_file_witness:
  "vmnode_ctor 10 1 EAGER 20 0 5 st_file = Ret () st_file' \<and>
   physmem st_file' 5 ! 2 = 3 \<and> physmem st_file' 5 ! 7 = 0"
proof -
  have h: "(20::nat) \<noteq> 0" "inodes st_file 20 = Some \<lparr>idata = [1, 2, 3, 4, 5], iref = 1\<rparr>"
    "distinct (kmem st_file)"
    by (simp_all add: st_file_def)
  from vmnode_ctor_eager_file [OF vmnode_ctor_st_file h]
  obtain nd where nd: "vmnodes st_file' 10 = Some nd"
    "\<forall>k < unat (1::u64). page nd ! k \<noteq> 0 \<and>
       (\<forall>b < PGSIZE. physmem st_file' (page nd ! k) ! b =
          (if k * PGSIZE + b < unat (5::u64)
           then idata \<lparr>idata = [1, 2, 3, 4, 5], iref = 1\<rparr> ! (unat (0 + of_nat (k * PGSIZE) :: u64) + b)
           else 0))"
    by blast
  from nd(1) have pg: "page nd ! 0 = 5" by (auto simp: st_file'_def)
  have b: "2 < PGSIZE" "7 < PGSIZE" by (simp_all add: PGSIZE_def)
  from nd(2) [rule_format, of 0, THEN conjunct2, rule_format, OF _ b(1)]
    nd(2) [rule_format, of 0, THEN conjunct2, rule_format, OF _ b(2)] pg
  have "physmem st_file' 5 ! 2 = 3" "physmem st_file' 5 ! 7 = 0" by simp_all
  then show ?thesis by (simp add: vmnode_ctor_st_file)
qed

section \<open>Ranges and the interval index\<close>

lemma range_overlaps_iff:
  assumes "{unat (vma_start a)..<unat (vma_end a)} \<inter> {unat k..<unat k + unat len} \<noteq> {}"
  shows "range_overlaps a k len"
proof -
  from assms have x: "unat (vma_start a) < unat k + unat len" "unat k < unat (vma_end a)"
    "unat (vma_start a) < unat (vma_end a)"
    by auto
  then have "vma_start a \<le> vma_end a"
    by (simp add: word_le_nat_alt)
  then have "unat (vma_end a - vma_start a) = unat (vma_end a) - unat (vma_start a)"
    by (rule unat_sub)
  with x show ?thesis by (simp add: range_overlaps_def)
qed

lemma search_lock_member:
  assumes "e \<in> set idx" and "vmas s e = Some a"
    and "{unat (vma_start a)..<unat (vma_end a)} \<inter> {unat k..<unat k + unat len} \<noteq> {}"
  shows "e \<in> set (search_lock idx k len s)"
  using assms by (simp add: search_lock_def range_overlaps_iff)

lemma len_pages:
  assumes "unat npg \<le> NELEM_page"
  shows "unat (npg * of_nat PGSIZE :: u64) = unat npg * PGSIZE"
proof -
  have "unat npg * PGSIZE \<le> 128 * 4096"
    using assms by (simp add: NELEM_page_def PGSIZE_def)
  then have "unat npg * unat (of_nat PGSIZE :: u64) < 2 ^ LENGTH(64)"
    by (simp add: PGSIZE_def)
  then have "unat (npg * of_nat PGSIZE :: u64) = unat npg * unat (of_nat PGSIZE :: u64)"
    by (rule unat_mult_lem [THEN iffD1])
  then show ?thesis by (simp add: PGSIZE_def)
qed

lemma vmap_remove_st_two: "vmap_remove 1 0 4096 st_two = Some (Ret 0 st_two_removed)"
  by (simp add: vmap_remove_def st_two_def st_two_removed_def st0_def nd_one_def
      search_lock_def range_overlaps_def span_replace_def vma_delete_def vmnode_decref_def
      vmnode_delete_def update_range_def)

section \<open>Claims about vmap::insert and vmap::remove\<close>

text \<open>
  C3.  \<open>vmap::insert\<close> of an object at \<open>start\<close> whose target range
  \<open>[start, start + npages * PGSIZE)\<close> overlaps a region of the address space returns
  \<open>-1\<close> (after reporting the overlap) and leaves the whole state, the regions of the
  address space among it, unchanged.  The page count of the object is within the bound
  its constructor enforces.
\<close>

theorem vmap_insert_overlap:
  assumes "vmnodes s vmn = Some nd" and "unat (npages nd) \<le> NELEM_page"
    and "vmaps s vm = Some m" and "e \<in> set (cr m)" and "vmas s e = Some a"
    and "{unat (vma_start a)..<unat (vma_end a)} \<inter>
         {unat start..<unat start + unat (npages nd) * PGSIZE} \<noteq> {}"
  shows "vmap_insert vm vmn start dotlb s = Some (Ret (- 1) s)"
proof -
  let ?len = "npages nd * of_nat PGSIZE"
  from assms(6) len_pages [OF assms(2)]
  have "{unat (vma_start a)..<unat (vma_end a)} \<inter> {unat start..<unat start + unat ?len} \<noteq> {}"
    by simp
  from search_lock_member [OF assms(4,5) this]
  have "search_lock (cr m) start ?len s \<noteq> []" by auto
  with assms(1,3) show ?thesis
    by (simp add: vmap_insert_def Let_def)
qed

theorem vmap_insert_overlap_witness:
  "vmap_insert 1 12 2048 True st_two = Some (Ret (- 1) st_two)"
proof -
  have h: "vmnodes st_two 12 = Some (nd_one\<lparr>vmnode.ref := 0\<rparr>)"
    "unat (npages (nd_one\<lparr>vmnode.ref := 0\<rparr>)) \<le> NELEM_page"
    "vmaps st_two 1 = Some \<lparr>cr = [20, 21], ref = 1, pml4 = []\<rparr>"
    "20 \<in> set (cr \<lparr>cr = [20, 21], ref = 1, pml4 = []\<rparr>)"
    "vmas st_two 20 = Some \<lparr>vma_start = 0, vma_end = 4096, va_type = PRIVATE, vma_n = 10\<rparr>"
    by (simp_all add: st_two_def nd_one_def NELEM_page_def)
  have ov: "{unat (vma_start \<lparr>vma_start = 0, vma_end = 4096, va_type = PRIVATE, vma_n = 10\<rparr>)..<
             unat (vma_end \<lparr>vma_start = 0, vma_end = 4096, va_type = PRIVATE, vma_n = 10\<rparr>)} \<inter>
            {unat (2048::u64)..<unat (2048::u64) + unat (npages (nd_one\<lparr>vmnode.ref := 0\<rparr>)) * PGSIZE}
            \<noteq> {}"
    by (simp add: nd_one_def PGSIZE_def)
  from vmap_insert_overlap [OF h ov] show ?thesis .
qed

text \<open>
  C4.  \<open>vmap::remove(start, len)\<close>: if some region of the address space overlaps
  \<open>[start, start + len)\<close> and is not contained in it, the call returns \<open>-1\<close> (partial
  unmap) and leaves the whole state unchanged; so a call that returns \<open>0\<close> found every
  overlapping region contained in the range.
\<close>

theorem vmap_remove_partial:
  assumes "vmaps s vm = Some m"
  shows "((\<exists>e \<in> set (cr m). \<exists>a. vmas s e = Some a \<and>
            {unat (vma_start a)..<unat (vma_end a)} \<inter> {unat start..<unat start + unat len} \<noteq> {} \<and>
            \<not> {unat (vma_start a)..<unat (vma_end a)} \<subseteq> {unat start..<unat start + unat len}) \<longrightarrow>
          vmap_remove vm start len s = Some (Ret (- 1) s)) \<and>
         (\<forall>s'. vmap_remove vm start len s = Some (Ret 0 s') \<longrightarrow>
            (\<forall>e \<in> set (cr m). \<forall>a. vmas s e = Some a \<and>
               {unat (vma_start a)..<unat (vma_end a)} \<inter> {unat start..<unat start + unat len} \<noteq> {} \<longrightarrow>
               {unat (vma_start a)..<unat (vma_end a)} \<subseteq> {unat start..<unat start + unat len}))"
proof -
  have fail: "vmap_remove vm start len s = Some (Ret (- 1) s)"
    if e: "e \<in> set (cr m)" "vmas s e = Some a"
      and ov: "{unat (vma_start a)..<unat (vma_end a)} \<inter> {unat start..<unat start + unat len} \<noteq> {}"
      and out: "\<not> {unat (vma_start a)..<unat (vma_end a)} \<subseteq> {unat start..<unat start + unat len}"
    for e a
  proof -
    from out obtain x where "x \<in> {unat (vma_start a)..<unat (vma_end a)}"
      "x \<notin> {unat start..<unat start + unat len}"
      by blast
    then have x: "unat (vma_start a) \<le> x" "x < unat (vma_end a)"
      "x < unat start \<or> unat start + unat len \<le> x"
      by auto
    have "vma_start a < start \<or> start + len < vma_end a"
    proof (cases "x < unat start")
      case True
      with x(1) show ?thesis by (simp add: word_less_nat_alt)
    next
      case False
      with x(3) have le: "unat start + unat len \<le> x" by simp
      have "unat (vma_end a) < 2 ^ LENGTH(64)" by (rule unsigned_less)
      with x(2) have "x < 2 ^ LENGTH(64)" by (rule less_trans)
      with le have "unat start + unat len < 2 ^ LENGTH(64)" by simp
      then have "unat (start + len) = unat start + unat len"
        by (rule unat_add_lem [THEN iffD1])
      with le x(2) show ?thesis by (simp add: word_less_nat_alt)
    qed
    moreover from search_lock_member [OF e ov]
    have "e \<in> set (search_lock (cr m) start len s)" .
    ultimately have "list_ex (\<lambda>r. case vmas s r of None \<Rightarrow> False
        | Some a \<Rightarrow> vma_start a < start \<or> start + len < vma_end a)
        (search_lock (cr m) start len s)"
      using e(2) unfolding list_ex_iff by (intro bexI [of _ e]) simp_all
    with assms show ?thesis
      by (simp add: vmap_remove_def Let_def)
  qed
  show ?thesis
  proof (intro conjI impI allI ballI)
    assume "\<exists>e \<in> set (cr m). \<exists>a. vmas s e = Some a \<and>
            {unat (vma_start a)..<unat (vma_end a)} \<inter> {unat start..<unat start + unat len} \<noteq> {} \<and>
            \<not> {unat (vma_start a)..<unat (vma_end a)} \<subseteq> {unat start..<unat start + unat len}"
    then show "vmap_remove vm start len s = Some (Ret (- 1) s)"
      using fail by blast
  next
    fix s' e a
    assume ok: "vmap_remove vm start len s = Some (Ret 0 s')" and e: "e \<in> set (cr m)"
      and a: "vmas s e = Some a \<and>
        {unat (vma_start a)..<unat (vma_end a)} \<inter> {unat start..<unat start + unat len} \<noteq> {}"
    show "{unat (vma_start a)..<unat (vma_end a)} \<subseteq> {unat start..<unat start + unat len}"
    proof (rule ccontr)
      assume "\<not> ?thesis"
      with fail [OF e] a have "vmap_remove vm start len s = Some (Ret (- 1) s)" by blast
      with ok show False by simp
    qed
  qed
qed

theorem vmap_remove_partial_witness:
  "vmap_remove 1 0 2048 st_two = Some (Ret (- 1) st_two) \<and>
   vmap_remove 1 0 4096 st_two = Some (Ret 0 st_two_removed) \<and>
   {unat (0::u64)..<unat (4096::u64)} \<subseteq> {unat (0::u64)..<unat (0::u64) + unat (4096::u64)}"
proof -
  let ?a = "\<lparr>vma_start = 0, vma_end = 4096, va_type = PRIVATE, vma_n = 10\<rparr>"
  let ?m = "\<lparr>cr = [20, 21], ref = 1, pml4 = []\<rparr>"
  have m: "vmaps st_two 1 = Some ?m" and a: "vmas st_two 20 = Some ?a" and e: "20 \<in> set (cr ?m)"
    by (simp_all add: st_two_def)
  have "\<exists>e \<in> set (cr ?m). \<exists>a. vmas st_two e = Some a \<and>
          {unat (vma_start a)..<unat (vma_end a)} \<inter> {unat (0::u64)..<unat (0::u64) + unat (2048::u64)} \<noteq> {} \<and>
          \<not> {unat (vma_start a)..<unat (vma_end a)} \<subseteq> {unat (0::u64)..<unat (0::u64) + unat (2048::u64)}"
    using a by (intro bexI [of _ 20] exI [of _ ?a]) simp_all
  with vmap_remove_partial [OF m, of 0 2048]
  have "vmap_remove 1 0 2048 st_two = Some (Ret (- 1) st_two)" by blast
  moreover have "vmas st_two 20 = Some ?a \<and>
      {unat (vma_start ?a)..<unat (vma_end ?a)} \<inter>
      {unat (0::u64)..<unat (0::u64) + unat (4096::u64)} \<noteq> {}"
    using a by simp
  from vmap_remove_partial [OF m, of 0 4096, THEN conjunct2, rule_format,
      OF vmap_remove_st_two e this]
  have "{unat (vma_start ?a)..<unat (vma_end ?a)} \<subseteq> {unat (0::u64)..<unat (0::u64) + unat (4096::u64)}" .
  ultimately show ?thesis using vmap_remove_st_two by simp
qed

section \<open>Lemmas about page faults\<close>

lemma allocpg_loop_populated_noop:
  assumes "allocpg_loop this i s = Ret r s'" and "vmnodes s this = Some nd"
    and "\<forall>j. i \<le> j \<and> j < unat (npages nd) \<longrightarrow> page nd ! j \<noteq> 0"
  shows "r = 0 \<and> s' = s"
  using assms
proof (induction rule: allocpg_loop_induct)
  case (stop i s nd)
  then show ?case by simp
next
  case (skip i s nd r s')
  then show ?case by simp
next
  case (oom i s nd s')
  then show ?case by auto
next
  case (round i s nd p ks r s')
  then show ?case by auto
qed

lemma pf_populate_frame:
  assumes "pf_populate vmn npg s = Ret u s1"
  shows "vmas s1 = vmas s \<and> vmaps s1 = vmaps s \<and> inodes s1 = inodes s \<and>
         objmem s1 = objmem s \<and> tlbflushes s1 = tlbflushes s"
proof (cases "vmn = 0")
  case True
  with assms show ?thesis by (simp add: pf_populate_def)
next
  case False
  with assms obtain nd q where nd: "vmnodes s vmn = Some nd" and q: "slot nd npg = Some q"
    by (auto simp: pf_populate_def split: option.splits)
  define sa where "sa = (if q = 0 then (case allocpg vmn s of Ret r t \<Rightarrow> t | _ \<Rightarrow> s) else s)"
  have fa: "vmas sa = vmas s \<and> vmaps sa = vmaps s \<and> inodes sa = inodes s \<and>
         objmem sa = objmem s \<and> tlbflushes sa = tlbflushes s"
  proof (cases "q = 0")
    case True
    show ?thesis
    proof (cases "allocpg vmn s")
      case (Ret r t)
      with allocpg_loop_frame [of vmn 0 s r t nd] nd True show ?thesis
        by (simp add: sa_def allocpg_def)
    qed (simp_all add: sa_def True)
  qed (simp add: sa_def)
  have nda: "\<exists>nd'. vmnodes sa vmn = Some nd'"
  proof (cases "q = 0")
    case True
    show ?thesis
    proof (cases "allocpg vmn s")
      case (Ret r t)
      with allocpg_loop_node [of vmn 0 s r t nd] nd True show ?thesis
        by (auto simp: sa_def allocpg_def)
    qed (simp_all add: sa_def True nd)
  qed (simp add: sa_def nd)
  from assms False nd q have "s1 = sa \<or> (\<exists>r. demand_load vmn sa = Ret r s1)"
    by (auto simp: pf_populate_def sa_def split: outcome.splits if_splits)
  then show ?thesis
  proof
    assume "s1 = sa"
    with fa show ?thesis by simp
  next
    assume "\<exists>r. demand_load vmn sa = Ret r s1"
    then obtain r where "demand_load_loop vmn 0 sa = Ret r s1" by (auto simp: demand_load_def)
    with nda demand_load_loop_frame [of vmn 0 sa r s1] obtain m where "s1 = sa\<lparr>physmem := m\<rparr>"
      by blast
    with fa show ?thesis by simp
  qed
qed

lemma pagefault_step_reached:
  assumes "pf_reaches vm va s mp m mr"
  shows "pagefault_step vm va err s =
     (case pf_populate (vma_n mr) (fault_page va mr) s of
        Ret u s1 \<Rightarrow>
          if va_type mr = COW \<and> err AND FEC_WR \<noteq> 0 then
            (case pagefault_wcow vm m s1 of
               None \<Rightarrow> Hang
             | Some (Ret r s2) \<Rightarrow> if r < 0 then Done (Ret (- 1) s2) else Retry (tlbflush s2)
             | Some (Panic msg) \<Rightarrow> Done (Panic msg)
             | Some Fault \<Rightarrow> Done Fault)
          else pf_install vm va (pte_load (pml4 mp) va) m mr (fault_page va mr) s1
      | Panic msg \<Rightarrow> Done (Panic msg)
      | Fault \<Rightarrow> Done Fault)"
  unfolding fault_page_def using assms
  by (simp add: pf_reaches_def pagefault_step_def Let_def)

lemma pagefault_Done:
  assumes "va < USERTOP" and "pagefault_step vm va err s = Done r"
  shows "pagefault vm va err s = Some r"
proof -
  from assms(1) have "\<not> USERTOP \<le> va" by (simp add: not_le)
  with assms(2) show ?thesis
    by (simp add: pagefault_def pagefault_retry.simps [of vm va err s])
qed

lemma vmap_lookup_state: "vmap_lookup vm a l s = Ret m s0 \<Longrightarrow> s0 = s"
  by (auto simp: vmap_lookup_def Let_def split: if_splits option.splits)

lemma pte_store_twice:
  "pte_store vm va v2 (pte_store vm va v1 s) = pte_store vm va v2 s"
  by (cases "vmaps s vm") (simp_all add: pte_store_def)

lemma pte_store_frame:
  "vmnodes (pte_store vm va v s) = vmnodes s" "vmas (pte_store vm va v s) = vmas s"
  "inodes (pte_store vm va v s) = inodes s" "physmem (pte_store vm va v s) = physmem s"
  "kmem (pte_store vm va v s) = kmem s" "objmem (pte_store vm va v s) = objmem s"
  "tlbflushes (pte_store vm va v s) = tlbflushes s"
  by (cases "vmaps s vm"; simp add: pte_store_def)+

lemma pte_store_vmaps:
  "vmaps s vm = Some mp \<Longrightarrow>
   vmaps (pte_store vm va v s) = (vmaps s)(vm \<mapsto> mp\<lparr>pml4 := AList.update (PGROUNDDOWN va) v (pml4 mp)\<rparr>)"
  by (simp add: pte_store_def)

lemma pte_load_update: "pte_load (AList.update (PGROUNDDOWN va) v pt) va = v"
  by (simp add: pte_load_def update_conv')

lemma pf_install_result:
  assumes "vmaps s1 vm = Some mp" and "pte_load (pml4 mp) va = ptev" and "vmas s1 m \<noteq> None"
  shows "pf_install vm va ptev m mr npg s1 =
     (if vma_n mr = 0 then Done Fault
      else case vmnodes s1 (vma_n mr) of
        None \<Rightarrow> Done Fault
      | Some nd \<Rightarrow>
          (case slot nd npg of
             None \<Rightarrow> Done Fault
           | Some pg \<Rightarrow>
               if va_type mr \<noteq> COW \<and> vmnode.ref nd \<noteq> 1
               then Done (Panic ''assert: m->n->ref == 1'')
               else Done (Ret 1 (pte_store vm va (installed_pte mr pg) s1))))"
  using assms
  by (auto simp: pf_install_def cmpxch_def deleted_def pte_store_frame pte_store_twice
      installed_pte_def split: option.splits)

lemma pagefault_step_retry_same:
  assumes "pagefault_step vm va err s = Retry s'" and "err AND FEC_WR = 0"
  shows "s' = s"
proof (cases "vmaps s vm")
  case None
  with assms show ?thesis by (simp add: pagefault_step_def)
next
  case (Some mp)
  let ?ptev = "pte_load (pml4 mp) va"
  show ?thesis
  proof (cases "?ptev AND (PTE_P OR PTE_U OR PTE_W) = (PTE_P OR PTE_U OR PTE_W)")
    case True
    with assms Some show ?thesis by (simp add: pagefault_step_def)
  next
    case nf: False
    show ?thesis
    proof (cases "?ptev AND PTE_LOCK = 0")
      case False
      with assms Some nf show ?thesis by (simp add: pagefault_step_def)
    next
      case nl: True
      from assms Some nf nl obtain m s0 where l: "vmap_lookup vm va 1 s = Ret m s0"
        by (cases "vmap_lookup vm va 1 s") (simp_all add: pagefault_step_def)
      then have s0: "s0 = s" by (rule vmap_lookup_state)
      from assms Some nf nl l s0 have m0: "m \<noteq> 0"
        by (auto simp: pagefault_step_def split: if_splits)
      with assms Some nf nl l s0 obtain mr where mr: "vmas s m = Some mr"
        by (cases "vmas s m") (simp_all add: pagefault_step_def)
      from Some nf nl l s0 m0 mr have reach: "pf_reaches vm va s mp m mr \<or> \<not> va < USERTOP"
        by (simp add: pf_reaches_def)
      have step: "pagefault_step vm va err s =
        (case pf_populate (vma_n mr) (fault_page va mr) s of
           Ret u s1 \<Rightarrow> pf_install vm va ?ptev m mr (fault_page va mr) s1
         | Panic msg \<Rightarrow> Done (Panic msg)
         | Fault \<Rightarrow> Done Fault)"
        unfolding fault_page_def using Some nf nl l s0 m0 mr assms(2)
        by (simp add: pagefault_step_def Let_def cong: outcome.case_cong)
      with assms(1) obtain u s1 where pop: "pf_populate (vma_n mr) (fault_page va mr) s = Ret u s1"
        and inst: "pf_install vm va ?ptev m mr (fault_page va mr) s1 = Retry s'"
        by (cases "pf_populate (vma_n mr) (fault_page va mr) s") simp_all
      from pf_populate_frame [OF pop] Some mr
      have "vmaps s1 vm = Some mp" "vmas s1 m \<noteq> None" by simp_all
      from pf_install_result [OF this(1) refl this(2), where mr = mr and npg = "fault_page va mr"] inst
      show ?thesis by (simp split: if_splits option.splits)
    qed
  qed
qed

lemma pagefault_retry_step:
  assumes "pagefault_retry vm va err s = Some r" and "err AND FEC_WR = 0"
  shows "pagefault_step vm va err s = Done r"
proof -
  have "err AND FEC_WR = 0 \<longrightarrow> pagefault_step vm va err s = Done r"
  proof (rule pagefault_retry.raw_induct
      [where P = "\<lambda>vm va err s r. err AND FEC_WR = 0 \<longrightarrow> pagefault_step vm va err s = Done r",
       OF _ assms(1)], goal_cases)
    case (1 f vm va err s r)
    show ?case
    proof
      assume nw: "err AND FEC_WR = 0"
      show "pagefault_step vm va err s = Done r"
      proof (cases "pagefault_step vm va err s")
        case (Done r')
        with 1(2) show ?thesis by simp
      next
        case (Retry s')
        with pagefault_step_retry_same [OF Retry nw] 1(2)
        have "f vm va err s = Some r" by simp
        from 1(1) [OF this] nw show ?thesis by simp
      next
        case Hang
        with 1(2) show ?thesis by simp
      qed
    qed
  qed
  with assms(2) show ?thesis by simp
qed

lemma pte_writable:
  "(x OR PTE_P OR PTE_U OR PTE_W) AND (PTE_P OR PTE_U OR PTE_W) = PTE_P OR PTE_U OR PTE_W"
  by (simp add: PTE_P_def PTE_U_def PTE_W_def bit_eq_iff bit_and_iff bit_or_iff)

lemma pte_cow_not_writable:
  "(v2p pg OR PTE_P OR PTE_U OR PTE_COW) AND (PTE_P OR PTE_U OR PTE_W) \<noteq> PTE_P OR PTE_U OR PTE_W"
proof
  assume eq: "(v2p pg OR PTE_P OR PTE_U OR PTE_COW) AND (PTE_P OR PTE_U OR PTE_W) =
    PTE_P OR PTE_U OR PTE_W"
  have "bit (PTE_P OR PTE_U OR PTE_W) (1::nat)"
    by (simp add: PTE_P_def PTE_U_def PTE_W_def bit_or_iff)
  moreover have "\<not> bit ((v2p pg OR PTE_P OR PTE_U OR PTE_COW) AND (PTE_P OR PTE_U OR PTE_W)) (1::nat)"
    by (simp add: PTE_P_def PTE_U_def PTE_W_def PTE_COW_def v2p_def bit_or_iff bit_and_iff
        bit_push_bit_iff)
  ultimately show False using eq by simp
qed

lemma pte_cow_not_locked:
  "(v2p pg OR PTE_P OR PTE_U OR PTE_COW) AND PTE_LOCK = 0"
proof (rule bit_eqI)
  fix n
  have lock: "bit PTE_LOCK n \<longleftrightarrow> n = 9"
  proof -
    have "PTE_LOCK = 2 ^ 9" by (simp add: PTE_LOCK_def)
    then have "bit PTE_LOCK n \<longleftrightarrow> bit (2 ^ 9 :: u64) n" by simp
    also have "\<dots> \<longleftrightarrow> n = 9" unfolding bit_exp_iff by auto
    finally show ?thesis .
  qed
  show "bit ((v2p pg OR PTE_P OR PTE_U OR PTE_COW) AND PTE_LOCK) n = bit (0::u64) n"
  proof (cases "n = 9")
    case True
    have "\<not> bit (v2p pg OR PTE_P OR PTE_U OR PTE_COW) (9::nat)"
      by (simp add: PTE_P_def PTE_U_def PTE_COW_def v2p_def bit_or_iff bit_push_bit_iff)
    with True show ?thesis by (simp add: bit_and_iff)
  next
    case False
    with lock show ?thesis by (simp add: bit_and_iff)
  qed
qed

lemma vmap_lookup_cong:
  assumes "vmap_lookup vm a l s = Ret m s" and "vmaps s vm = Some mp"
    and "vmaps t vm = Some mp'" and "cr mp' = cr mp" and "vmas t = vmas s"
  shows "vmap_lookup vm a l t = Ret m t"
  using assms
  by (auto simp: vmap_lookup_def cr_search_def search_lock_def Let_def
      split: if_splits option.splits list.splits)

lemma allocpg_loop_in_range:
  assumes "allocpg_loop this i s = Ret r s'" and "vmnodes s this = Some nd" and "r = 0"
  shows "\<forall>j. i \<le> j \<and> j < unat (npages nd) \<longrightarrow> j < NELEM_page"
  using assms
proof (induction rule: allocpg_loop_induct)
  case (stop i s nd)
  then show ?case by simp
next
  case (skip i s nd r s')
  then show ?case by (metis Suc_leI le_neq_implies_less)
next
  case (oom i s nd s')
  then show ?case by simp
next
  case (round i s nd p ks r s')
  then have "\<forall>j. Suc i \<le> j \<and> j < unat (npages nd) \<longrightarrow> j < NELEM_page" by simp
  with round.hyps(3) show ?case by (metis Suc_leI le_neq_implies_less)
qed

lemma allocpg_loop_populated_total:
  assumes "vmnodes s this = Some nd"
    and "\<forall>j. i \<le> j \<and> j < unat (npages nd) \<longrightarrow>
           j < NELEM_page \<and> j < length (page nd) \<and> page nd ! j \<noteq> 0"
  shows "allocpg_loop this i s = Ret 0 s"
  using assms(2)
proof (induction "unat (npages nd) - i" arbitrary: i)
  case 0
  with assms(1) show ?case by (simp add: allocpg_loop.simps [of this i s])
next
  case (Suc d)
  then have lt: "i < unat (npages nd)" by simp
  with Suc.prems have "slot nd i = Some (page nd ! i)" "page nd ! i \<noteq> 0"
    by (simp_all add: slot_def)
  moreover have "allocpg_loop this (Suc i) s = Ret 0 s"
    using Suc by (intro Suc.hyps(1)) auto
  ultimately show ?case
    using assms(1) lt by (simp add: allocpg_loop.simps [of this i s])
qed

lemma overlay_empty: "overlay Map.empty m = m"
  by (simp add: overlay_def)

lemma overlay_idem: "overlay C (overlay C m) = overlay C m"
  by (auto simp: overlay_def fun_eq_iff split: option.splits)

lemma prefix_twice:
  "d2 @ drop (length d2) (d1 @ drop (length d1) x) =
   (d2 @ drop (length d2) d1) @ drop (length (d2 @ drop (length d2) d1)) x"
  by (cases "length d2 \<le> length d1") simp_all

lemma overlay_overlay:
  "\<exists>C. \<forall>m. overlay C2 (overlay C1 m) = overlay C m"
proof -
  let ?C = "\<lambda>p. case C2 p of None \<Rightarrow> C1 p
                | Some d2 \<Rightarrow> (case C1 p of None \<Rightarrow> Some d2
                              | Some d1 \<Rightarrow> Some (d2 @ drop (length d2) d1))"
  have "overlay C2 (overlay C1 m) = overlay ?C m" for m
    unfolding overlay_def fun_eq_iff
    by (auto split: option.splits simp: prefix_twice simp del: append_assoc length_append drop_append)
  then show ?thesis by blast
qed

lemma readi_overlay:
  assumes "readi i p off cnt s = Ret r s1"
  shows "\<exists>C. \<forall>t. inodes t = inodes s \<longrightarrow>
           readi i p off cnt t = Ret r (t\<lparr>physmem := overlay C (physmem t)\<rparr>)"
proof -
  from assms obtain f where f: "inodes s i = Some f"
    by (cases "inodes s i") (simp_all add: readi_def)
  let ?m = "min cnt (length (idata f) - unat off)"
  let ?d = "take ?m (drop (unat off) (idata f))"
  have len: "length ?d = ?m" by simp
  show ?thesis
  proof (cases "length (idata f) < unat off \<or> ?m = 0")
    case True
    with assms f have "\<forall>t. inodes t = inodes s \<longrightarrow>
           readi i p off cnt t = Ret r (t\<lparr>physmem := overlay Map.empty (physmem t)\<rparr>)"
      by (auto simp: readi_def Let_def overlay_empty)
    then show ?thesis by blast
  next
    case False
    with assms f have p: "p \<noteq> 0" and r: "r = int ?m"
      by (auto simp: readi_def Let_def split: if_splits)
    have "(physmem t)(p := ?d @ drop ?m (physmem t p)) = overlay [p \<mapsto> ?d] (physmem t)" for t :: kstate
      by (auto simp: overlay_def fun_eq_iff)
    with False f p r have "\<forall>t. inodes t = inodes s \<longrightarrow>
           readi i p off cnt t = Ret r (t\<lparr>physmem := overlay [p \<mapsto> ?d] (physmem t)\<rparr>)"
      by (auto simp: readi_def Let_def)
    then show ?thesis by blast
  qed
qed

lemma demand_load_loop_overlay:
  assumes "demand_load_loop this i s = Ret r s'" and "vmnodes s this = Some nd"
  shows "\<exists>C. \<forall>t. vmnodes t this = Some nd \<and> inodes t = inodes s \<longrightarrow>
           demand_load_loop this i t = Ret r (t\<lparr>physmem := overlay C (physmem t)\<rparr>)"
  using assms
proof (induction "unat (sz nd) - i" arbitrary: i s rule: less_induct)
  case less
  note run = less.prems(1) and nd = less.prems(2)
  show ?case
  proof (cases "i < unat (sz nd)")
    case False
    with run nd have "r = 0" by (simp add: demand_load_loop.simps [of this i s])
    with False have "\<forall>t. vmnodes t this = Some nd \<and> inodes t = inodes s \<longrightarrow>
           demand_load_loop this i t = Ret r (t\<lparr>physmem := overlay Map.empty (physmem t)\<rparr>)"
      by (simp add: demand_load_loop.simps [of this i] overlay_empty)
    then show ?thesis by blast
  next
    case lt: True
    with run nd obtain p where p: "slot nd (i div PGSIZE) = Some p"
      by (cases "slot nd (i div PGSIZE)") (simp_all add: demand_load_loop.simps [of this i s])
    let ?cnt = "load_cnt nd i"
    from run nd lt p obtain r1 s1 where
      rd: "readi (ip nd) p (offset nd + of_nat i) ?cnt s = Ret r1 s1"
      by (cases "readi (ip nd) p (offset nd + of_nat i) ?cnt s")
         (simp_all add: demand_load_loop.simps [of this i s] load_cnt_def)
    from readi_overlay [OF rd] obtain C1 where
      C1: "\<And>t. inodes t = inodes s \<Longrightarrow>
        readi (ip nd) p (offset nd + of_nat i) ?cnt t = Ret r1 (t\<lparr>physmem := overlay C1 (physmem t)\<rparr>)"
      by blast
    show ?thesis
    proof (cases "r1 = int ?cnt")
      case False
      with run nd lt p rd have "r = - 1"
        by (simp add: demand_load_loop.simps [of this i s] load_cnt_def)
      with False lt p C1 have "\<forall>t. vmnodes t this = Some nd \<and> inodes t = inodes s \<longrightarrow>
           demand_load_loop this i t = Ret r (t\<lparr>physmem := overlay C1 (physmem t)\<rparr>)"
        by (simp add: demand_load_loop.simps [of this i] load_cnt_def)
      then show ?thesis by blast
    next
      case True
      with run nd lt p rd have nxt: "demand_load_loop this (i + PGSIZE) s1 = Ret r s'"
        by (simp add: demand_load_loop.simps [of this i s] load_cnt_def)
      from readi_frame [OF rd] obtain m0 where s1: "s1 = s\<lparr>physmem := m0\<rparr>" by blast
      have dec: "unat (sz nd) - (i + PGSIZE) < unat (sz nd) - i"
        using lt PGSIZE_pos by simp
      have nd1: "vmnodes s1 this = Some nd" using nd s1 by simp
      from less.hyps [OF dec nxt nd1] s1 obtain C2 where
        C2: "\<And>t. vmnodes t this = Some nd \<Longrightarrow> inodes t = inodes s \<Longrightarrow>
          demand_load_loop this (i + PGSIZE) t = Ret r (t\<lparr>physmem := overlay C2 (physmem t)\<rparr>)"
        by auto
      from overlay_overlay [of C2 C1] obtain C where
        C: "\<And>m. overlay C2 (overlay C1 m) = overlay C m" by blast
      have "demand_load_loop this i t = Ret r (t\<lparr>physmem := overlay C (physmem t)\<rparr>)"
        if t: "vmnodes t this = Some nd" "inodes t = inodes s" for t
      proof -
        let ?t1 = "t\<lparr>physmem := overlay C1 (physmem t)\<rparr>"
        from True t lt p C1 [OF t(2)]
        have "demand_load_loop this i t = demand_load_loop this (i + PGSIZE) ?t1"
          by (simp add: demand_load_loop.simps [of this i t] load_cnt_def)
        also have "\<dots> = Ret r (?t1\<lparr>physmem := overlay C2 (physmem ?t1)\<rparr>)"
          using t by (intro C2) simp_all
        finally show ?thesis by (simp add: C)
      qed
      then show ?thesis by blast
    qed
  qed
qed

lemma demand_load_loop_idem:
  assumes run: "demand_load_loop this i s = Ret r s'" and nd: "vmnodes s this = Some nd"
    and t: "vmnodes t this = Some nd" "inodes t = inodes s" "physmem t = physmem s'"
  shows "demand_load_loop this i t = Ret r t"
proof -
  from demand_load_loop_overlay [OF run nd] obtain C where
    C: "\<And>t. vmnodes t this = Some nd \<Longrightarrow> inodes t = inodes s \<Longrightarrow>
          demand_load_loop this i t = Ret r (t\<lparr>physmem := overlay C (physmem t)\<rparr>)"
    by blast
  from C [OF nd refl] run have "s' = s\<lparr>physmem := overlay C (physmem s)\<rparr>" by simp
  then have "physmem s' = overlay C (physmem s)" by simp
  with t(3) have "overlay C (physmem t) = physmem t" by (simp add: overlay_idem)
  with C [OF t(1,2)] show ?thesis by simp
qed

lemma pf_populate_idem:
  assumes pop: "pf_populate vmn npg s = Ret u sp" and vmn: "vmn \<noteq> 0"
    and t: "vmnodes t = vmnodes sp" "inodes t = inodes sp" "physmem t = physmem sp"
  shows "pf_populate vmn npg t = Ret () t"
proof -
  from pop vmn obtain nd q where nd: "vmnodes s vmn = Some nd" and q: "slot nd npg = Some q"
    by (auto simp: pf_populate_def split: option.splits)
  obtain sa where sa: "if q = 0 then allocpg_loop vmn 0 s = Ret 0 sa else sa = s"
    and rest: "if type nd = ONDEMAND then (\<exists>r. demand_load_loop vmn 0 sa = Ret r sp \<and> \<not> r < 0)
               else sp = sa"
  proof (cases "q = 0")
    case False
    with pop vmn nd q that [of s] show ?thesis
      by (auto simp: pf_populate_def demand_load_def split: outcome.splits if_splits)
  next
    case True
    with pop vmn nd q obtain r sa where a: "allocpg vmn s = Ret r sa" "\<not> r < 0"
      by (cases "allocpg vmn s") (auto simp: pf_populate_def split: if_splits)
    with allocpg_loop_result [of vmn 0 s r sa nd] nd have "r = 0"
      by (auto simp: allocpg_def)
    with pop vmn nd q True a that [of sa] show ?thesis
      by (auto simp: pf_populate_def demand_load_def allocpg_def split: outcome.splits if_splits)
  qed
  obtain nda where nda: "vmnodes sa vmn = Some nda" "type nda = type nd"
    and slot_a: "\<exists>q'. slot nda npg = Some q'"
    and full: "q = 0 \<longrightarrow> (\<forall>j. j < unat (npages nda) \<longrightarrow>
            j < NELEM_page \<and> j < length (page nda) \<and> page nda ! j \<noteq> 0)"
    and keep: "q \<noteq> 0 \<longrightarrow> slot nda npg = Some q"
  proof (cases "q = 0")
    case False
    with sa nd q that [of nd] show ?thesis by simp
  next
    case True
    with sa have run: "allocpg_loop vmn 0 s = Ret 0 sa" by simp
    from allocpg_loop_node [OF run nd] obtain pg where
      pg: "vmnodes sa = (vmnodes s)(vmn \<mapsto> nd\<lparr>page := pg\<rparr>)" "length pg = length (page nd)"
      by blast
    let ?nda = "nd\<lparr>page := pg\<rparr>"
    have a: "vmnodes sa vmn = Some ?nda" using pg by simp
    have "\<forall>j. j < unat (npages ?nda) \<longrightarrow>
            j < NELEM_page \<and> j < length (page ?nda) \<and> page ?nda ! j \<noteq> 0"
      using allocpg_loop_populated [OF run nd refl a] allocpg_loop_in_range [OF run nd refl]
      by simp
    moreover have "\<exists>q'. slot ?nda npg = Some q'"
      using q pg(2) by (simp add: slot_def split: if_splits)
    ultimately show ?thesis using that [of ?nda] a True by simp
  qed
  have sp_nodes: "vmnodes sp = vmnodes sa" "inodes sp = inodes sa"
  proof -
    have "\<exists>m. sp = sa\<lparr>physmem := m\<rparr>"
    proof (cases "type nd = ONDEMAND")
      case True
      with rest obtain r where "demand_load_loop vmn 0 sa = Ret r sp" by auto
      from demand_load_loop_frame [OF this nda(1)] show ?thesis by blast
    next
      case False
      with rest have "sp = sa\<lparr>physmem := physmem sa\<rparr>" by simp
      then show ?thesis by blast
    qed
    then show "vmnodes sp = vmnodes sa" "inodes sp = inodes sa" by auto
  qed
  have ndt: "vmnodes t vmn = Some nda" using t sp_nodes nda by simp
  from slot_a obtain q' where q': "slot nda npg = Some q'" by blast
  have alloc_t: "q' = 0 \<longrightarrow> allocpg vmn t = Ret 0 t"
  proof
    assume "q' = 0"
    with keep q' have "q = 0" by auto
    with full have "\<forall>j. 0 \<le> j \<and> j < unat (npages nda) \<longrightarrow>
            j < NELEM_page \<and> j < length (page nda) \<and> page nda ! j \<noteq> 0" by simp
    from allocpg_loop_populated_total [OF ndt this] show "allocpg vmn t = Ret 0 t"
      by (simp add: allocpg_def)
  qed
  show ?thesis
  proof (cases "type nd = ONDEMAND")
    case False
    with nda vmn ndt q' alloc_t show ?thesis
      by (auto simp: pf_populate_def)
  next
    case True
    with rest obtain r where r: "demand_load_loop vmn 0 sa = Ret r sp" "\<not> r < 0" by auto
    have "demand_load_loop vmn 0 t = Ret r t"
      using t sp_nodes by (intro demand_load_loop_idem [OF r(1) nda(1) ndt]) simp_all
    with True nda vmn ndt q' alloc_t r(2) show ?thesis
      by (auto simp: pf_populate_def demand_load_def)
  qed
qed

lemma pte_store_idem:
  assumes "vmaps s vm = Some mp" and "pml4 mp = AList.update (PGROUNDDOWN va) v pt"
  shows "pte_store vm va v s = s"
proof -
  have "mp\<lparr>pml4 := AList.update (PGROUNDDOWN va) v (pml4 mp)\<rparr> = mp"
    using assms(2) by simp
  with assms(1) show ?thesis
    by (simp add: pte_store_def map_upd_triv)
qed

lemma pagefault_first_resolution:
  assumes first: "pagefault vm va err s = Some (Ret 1 s1)" and nw: "err AND FEC_WR = 0"
  shows "\<exists>mp m mr u sp nd pg.
           pf_reaches vm va s mp m mr \<and>
           pf_populate (vma_n mr) (fault_page va mr) s = Ret u sp \<and>
           vma_n mr \<noteq> 0 \<and> vmnodes sp (vma_n mr) = Some nd \<and>
           slot nd (fault_page va mr) = Some pg \<and>
           s1 = pte_store vm va (installed_pte mr pg) sp"
proof -
  from first have lt: "va < USERTOP"
    by (auto simp: pagefault_def split: if_splits)
  with first have "pagefault_retry vm va err s = Some (Ret 1 s1)"
    by (simp add: pagefault_def not_le [symmetric])
  from pagefault_retry_step [OF this nw]
  have step: "pagefault_step vm va err s = Done (Ret 1 s1)" .
  then obtain mp where mp: "vmaps s vm = Some mp"
    by (cases "vmaps s vm") (simp_all add: pagefault_step_def)
  let ?ptev = "pte_load (pml4 mp) va"
  from step mp have nf: "?ptev AND (PTE_P OR PTE_U OR PTE_W) \<noteq> (PTE_P OR PTE_U OR PTE_W)"
    by (auto simp: pagefault_step_def Let_def)
  from step mp nf have nl: "?ptev AND PTE_LOCK = 0"
    by (auto simp: pagefault_step_def Let_def split: if_splits)
  from step mp nf nl obtain m s0 where l: "vmap_lookup vm va 1 s = Ret m s0"
    by (cases "vmap_lookup vm va 1 s") (simp_all add: pagefault_step_def Let_def)
  then have s0: "s0 = s" by (rule vmap_lookup_state)
  from step mp nf nl l s0 have m0: "m \<noteq> 0"
    by (auto simp: pagefault_step_def Let_def split: if_splits)
  with step mp nf nl l s0 obtain mr where mr: "vmas s m = Some mr"
    by (cases "vmas s m") (simp_all add: pagefault_step_def Let_def)
  from lt mp nf nl l s0 m0 mr have reach: "pf_reaches vm va s mp m mr"
    by (simp add: pf_reaches_def)
  from step nw obtain u sp where pop: "pf_populate (vma_n mr) (fault_page va mr) s = Ret u sp"
    and inst: "pf_install vm va ?ptev m mr (fault_page va mr) sp = Done (Ret 1 s1)"
    by (cases "pf_populate (vma_n mr) (fault_page va mr) s")
       (simp_all add: pagefault_step_reached [OF reach])
  from pf_populate_frame [OF pop] mp mr
  have "vmaps sp vm = Some mp" "vmas sp m \<noteq> None" by simp_all
  from pf_install_result [OF this(1) refl this(2), where mr = mr and npg = "fault_page va mr"] inst
  obtain nd pg where "vma_n mr \<noteq> 0" "vmnodes sp (vma_n mr) = Some nd"
    "slot nd (fault_page va mr) = Some pg" "s1 = pte_store vm va (installed_pte mr pg) sp"
    by (auto split: if_splits option.splits)
  with reach pop show ?thesis by blast
qed

lemma allocpg_loop_short:
  assumes "vmnodes s this = Some nd"
    and "unat (npages nd) \<le> length (page nd)" and "unat (npages nd) \<le> NELEM_page"
    and "length (kmem s) <
           length (filter (\<lambda>q. q = 0) (drop i (take (unat (npages nd)) (page nd))))"
  shows "\<exists>s'. allocpg_loop this i s = Ret (- 1) s'"
  using assms
proof (induction "unat (npages nd) - i" arbitrary: i s nd rule: less_induct)
  case less
  note nd = less.prems(1) and len = less.prems(2) and bound = less.prems(3)
    and short = less.prems(4)
  let ?n = "unat (npages nd)"
  have lt: "i < ?n"
  proof (rule ccontr)
    assume "\<not> i < ?n"
    then have "drop i (take ?n (page nd)) = []" by simp
    with short show False by simp
  qed
  with len bound have sl: "slot nd i = Some (page nd ! i)" by (simp add: slot_def)
  from lt have dec: "?n - Suc i < ?n - i" by simp
  from lt len have dr: "drop i (take ?n (page nd)) = page nd ! i # drop (Suc i) (take ?n (page nd))"
    by (simp add: Cons_nth_drop_Suc [symmetric])
  show ?case
  proof (cases "page nd ! i = 0")
    case False
    with short dr have "length (kmem s) <
        length (filter (\<lambda>q. q = 0) (drop (Suc i) (take ?n (page nd))))" by simp
    from less.hyps [OF dec nd len bound this]
    obtain s' where "allocpg_loop this (Suc i) s = Ret (- 1) s'" by blast
    with nd lt sl False show ?thesis
      by (simp add: allocpg_loop.simps [of this i s])
  next
    case True
    show ?thesis
    proof (cases "kmem s")
      case Nil
      with nd lt sl True show ?thesis
        by (simp add: allocpg_loop.simps [of this i s] kalloc_def)
    next
      case (Cons p ks)
      show ?thesis
      proof (cases "p = 0")
        case p0: True
        with Cons nd lt sl True show ?thesis
          by (simp add: allocpg_loop.simps [of this i s] kalloc_def)
      next
        case False
        let ?nd = "nd\<lparr>page := (page nd)[i := p]\<rparr>"
        let ?s1 = "alloc_round this i nd p ks s"
        have nd': "vmnodes ?s1 this = Some ?nd" by (simp add: alloc_round_def)
        have "drop (Suc i) (take ?n (page ?nd)) = drop (Suc i) (take ?n (page nd))"
          by (simp add: take_update_swap)
        moreover from short dr True Cons have "length ks <
            length (filter (\<lambda>q. q = 0) (drop (Suc i) (take ?n (page nd))))" by simp
        ultimately have "length (kmem ?s1) <
            length (filter (\<lambda>q. q = 0) (drop (Suc i) (take (unat (npages ?nd)) (page ?nd))))"
          by (simp add: alloc_round_def)
        moreover have "unat (npages ?nd) - Suc i < ?n - i" using lt by simp
        moreover have "unat (npages ?nd) \<le> length (page ?nd)" using len by simp
        moreover have "unat (npages ?nd) \<le> NELEM_page" using bound by simp
        ultimately obtain s' where "allocpg_loop this (Suc i) ?s1 = Ret (- 1) s'"
          using less.hyps [of ?nd "Suc i" ?s1] nd' by blast
        with Cons nd lt sl True False show ?thesis
          by (simp add: allocpg_loop.simps [of this i s] kalloc_def
              install_page_round [OF nd True])
      qed
    qed
  qed
qed

lemma foldl_kfree_frame:
  "vmas (foldl (\<lambda>t p. if p \<noteq> 0 then kfree p t else t) s ps) = vmas s \<and>
   vmaps (foldl (\<lambda>t p. if p \<noteq> 0 then kfree p t else t) s ps) = vmaps s \<and>
   inodes (foldl (\<lambda>t p. if p \<noteq> 0 then kfree p t else t) s ps) = inodes s \<and>
   vmnodes (foldl (\<lambda>t p. if p \<noteq> 0 then kfree p t else t) s ps) = vmnodes s"
  by (induction ps arbitrary: s) (simp_all add: kfree_def)

lemma vmnode_delete_total:
  assumes "vmnodes s c = Some nd" and "unat (npages nd) \<le> length (page nd)"
    and "ip nd \<noteq> 0 \<longrightarrow> inodes s (ip nd) \<noteq> None"
  shows "\<exists>s2. vmnode_delete c s = Ret () s2 \<and> vmas s2 = vmas s \<and> vmaps s2 = vmaps s"
proof (cases "ip nd = 0")
  case True
  with assms foldl_kfree_frame [of s "take (unat (npages nd)) (page nd)"] show ?thesis
    by (simp add: vmnode_delete_def Let_def)
next
  case False
  with assms(3) obtain f where "inodes s (ip nd) = Some f" by auto
  with assms False foldl_kfree_frame [of s "take (unat (npages nd)) (page nd)"] show ?thesis
    by (simp add: vmnode_delete_def Let_def iput_def)
qed

lemma vmnode_copy_short:
  assumes nd: "vmnodes s this = Some nd" and first: "slot nd 0 = Some p0" "p0 \<noteq> 0"
    and np: "unat (npages nd) \<le> NELEM_page"
    and short: "length (kmem s) < unat (npages nd)"
    and obj: "objmem s = c # cs" "c \<noteq> 0" "c \<noteq> this"
    and ino: "type nd = ONDEMAND \<longrightarrow> inodes s (ip nd) \<noteq> None"
  shows "\<exists>s2. vmnode_copy this s = Ret 0 s2 \<and> vmas s2 = vmas s \<and> vmaps s2 = vmaps s"
proof -
  have pages: "\<exists>s2. copy_pages this c s3 = Ret 0 s2 \<and> vmas s2 = vmas s \<and> vmaps s2 = vmaps s"
    if s3: "vmnodes s3 = (vmnodes s)(c \<mapsto> copy_init nd)" "kmem s3 = kmem s"
      "vmas s3 = vmas s" "vmaps s3 = vmaps s"
      "ip (copy_init nd) \<noteq> 0 \<longrightarrow> inodes s3 (ip (copy_init nd)) \<noteq> None"
    for s3
  proof -
    have this3: "vmnodes s3 this = Some nd" using s3 nd obj by simp
    have c3: "vmnodes s3 c = Some (copy_init nd)" using s3 by simp
    have "filter (\<lambda>q. q = 0) (replicate (unat (npages nd)) (0::nat)) =
        replicate (unat (npages nd)) 0" by simp
    then have "length (kmem s3) < length (filter (\<lambda>q. q = 0)
        (drop 0 (take (unat (npages (copy_init nd))) (page (copy_init nd)))))"
      using short s3(2) by (simp add: copy_init_def)
    from allocpg_loop_short [OF c3 _ _ this] np
    obtain s4 where a: "allocpg c s3 = Ret (- 1) s4"
      by (auto simp: allocpg_def copy_init_def)
    from allocpg_loop_node [of c 0 s3 "- 1" s4, OF _ c3] a obtain pg where
      pg: "vmnodes s4 = (vmnodes s3)(c \<mapsto> (copy_init nd)\<lparr>page := pg\<rparr>)"
        "length pg = length (page (copy_init nd))"
      by (auto simp: allocpg_def)
    from allocpg_loop_frame [of c 0 s3 "- 1" s4, OF _ c3] a
    have fr: "vmas s4 = vmas s3" "vmaps s4 = vmaps s3" "inodes s4 = inodes s3"
      by (simp_all add: allocpg_def)
    let ?ndc = "(copy_init nd)\<lparr>page := pg\<rparr>"
    have "vmnodes s4 c = Some ?ndc" using pg by simp
    moreover have "unat (npages ?ndc) \<le> length (page ?ndc)"
      using pg(2) by (simp add: copy_init_def)
    moreover have "ip ?ndc \<noteq> 0 \<longrightarrow> inodes s4 (ip ?ndc) \<noteq> None"
      using s3(5) fr by simp
    ultimately obtain s2 where "vmnode_delete c s4 = Ret () s2" "vmas s2 = vmas s4"
      "vmaps s2 = vmaps s4"
      using vmnode_delete_total by blast
    with this3 first a fr s3 show ?thesis
      by (auto simp: copy_pages_def)
  qed
  show ?thesis
  proof (cases "type nd")
    case EAGER
    let ?s3 = "s\<lparr>objmem := cs, vmnodes := (vmnodes s)(c \<mapsto> copy_init nd)\<rparr>"
    have "vmnode_copy this s = copy_pages this c ?s3"
      using nd obj np EAGER
      by (simp add: vmnode_copy_def new_obj_def vmnode_ctor_lazy copy_init_def)
    moreover have "\<exists>s2. copy_pages this c ?s3 = Ret 0 s2 \<and> vmas s2 = vmas s \<and> vmaps s2 = vmaps s"
      using EAGER by (intro pages) (simp_all add: copy_init_def)
    ultimately show ?thesis by simp
  next
    case ONDEMAND
    with ino obtain f where f: "inodes s (ip nd) = Some f" by auto
    let ?s3 = "s\<lparr>objmem := cs, inodes := (inodes s)(ip nd \<mapsto> f\<lparr>iref := iref f + 1\<rparr>),
                  vmnodes := (vmnodes s)(c \<mapsto> copy_init nd)\<rparr>"
    have "vmnode_copy this s = copy_pages this c ?s3"
      using nd obj np ONDEMAND f
      by (simp add: vmnode_copy_def new_obj_def idup_def vmnode_ctor_lazy copy_init_def)
    moreover have "\<exists>s2. copy_pages this c ?s3 = Ret 0 s2 \<and> vmas s2 = vmas s \<and> vmaps s2 = vmaps s"
      using ONDEMAND by (intro pages) (simp_all add: copy_init_def)
    ultimately show ?thesis by simp
  qed
qed

section \<open>Runs of the examples\<close>

lemma PGROUNDDOWN_0: "PGROUNDDOWN 0 = 0"
  by (simp add: PGROUNDDOWN_def)

lemma two: "Suc (Suc 0) = 2"
  by simp

lemmas eval_defs = PGSIZE_def PGROUNDDOWN_0 two pte_load_def
  PTE_P_def PTE_W_def PTE_U_def PTE_LOCK_def PTE_COW_def PTE_ADDR_def FEC_WR_def USERTOP_def
  vmap_lookup_def cr_search_def search_lock_def range_overlaps_def range_key_def
  slot_def NELEM_page_def demand_load_def demand_load_loop.simps readi_def
  new_obj_def idup_def iput_def vmnode_ctor_def copy_pages_def
  allocpg_def allocpg_loop.simps kalloc_def install_page_def memset_page_def cmpxch_def
  copy_loop.simps memmove_page_def new_vma_def vma_ctor_def replace_vma_def span_replace_def
  vma_delete_def vmnode_decref_def vmnode_delete_def update_range_def tlbflush_def
  new_vmap_def

lemma cow_pte_5007: "cow_pte 0x5007 False = Some (0x5805, False)"
  by (subst cow_pte.simps) (simp add: eval_defs)

lemma vmap_copy_st_written: "vmap_copy 1 True st_written = Some (Ret 2 st_fork)"
  apply (simp add: vmap_copy_def st_written_def st0_def nd_file_def new_vmap_def new_obj_def
      copy_region_def)
  apply (simp add: st_fork_def st_written_def st0_def nd_file_def eval_defs cow_pte_5007)
  done

lemma vmap_copy_two_objects:
  "vmap_copy 1 True (st_written\<lparr>objmem := [2, 21]\<rparr>) = Some (Ret 2 st_lost)"
  apply (simp add: vmap_copy_def st_written_def st0_def nd_file_def new_vmap_def new_obj_def
      copy_region_def)
  apply (simp add: st_lost_def st_written_def st0_def nd_file_def eval_defs cow_pte_5007)
  done

lemmas pf_defs = pagefault_step_def pf_populate_def pagefault_wcow_def vmnode_copy_def
  pf_install_def pte_store_def deleted_def v2p_def

lemma pagefault_step_st_fork: "pagefault_step 2 0 FEC_WR st_fork = Retry st_wcow"
  by (simp add: pf_defs st_wcow_def st_final_def st_fork_def st_written_def st0_def nd_file_def
      eval_defs)

lemma pagefault_step_st_wcow: "pagefault_step 2 0 FEC_WR st_wcow = Done (Ret 1 st_final)"
  by (simp add: pf_defs st_wcow_def st_final_def st_fork_def st_written_def st0_def nd_file_def
      eval_defs)

lemma pagefault_st_fork: "pagefault 2 0 FEC_WR st_fork = Some (Ret 1 st_final)"
  by (simp add: pagefault_def USERTOP_def)
     (simp add: pagefault_retry.simps [of 2 0 FEC_WR st_fork]
        pagefault_retry.simps [of 2 0 FEC_WR st_wcow]
        pagefault_step_st_fork pagefault_step_st_wcow)

lemma pagefault_step_st_fork_read: "pagefault_step 2 0 0 st_fork = Done (Ret 1 st_read)"
  by (simp add: pf_defs st_read_def st_fork_def st_written_def st0_def nd_file_def eval_defs)

lemma pagefault_step_st_read: "pagefault_step 2 0 0 st_read = Done (Ret 1 st_read)"
  by (simp add: pf_defs st_read_def st_fork_def st_written_def st0_def nd_file_def eval_defs)

lemma pagefault_st_fork_read: "pagefault 2 0 0 st_fork = Some (Ret 1 st_read)"
  by (rule pagefault_Done [OF _ pagefault_step_st_fork_read]) (simp add: USERTOP_def)

lemma pagefault_st_read: "pagefault 2 0 0 st_read = Some (Ret 1 st_read)"
  by (rule pagefault_Done [OF _ pagefault_step_st_read]) (simp add: USERTOP_def)

lemma pagefault_step_st_two: "pagefault_step 1 0 0 st_two = Done (Ret 1 st_two_read)"
  by (simp add: pf_defs st_two_read_def st_two_def st0_def nd_one_def eval_defs)

lemma pagefault_st_two: "pagefault 1 0 0 st_two = Some (Ret 1 st_two_read)"
  by (rule pagefault_Done [OF _ pagefault_step_st_two]) (simp add: USERTOP_def)

lemma vmap_lookup_st_two: "vmap_lookup 1 0 1 st_two = Ret 20 st_two"
  by (simp add: st_two_def st0_def eval_defs)

lemma vmap_lookup_st_fork: "vmap_lookup 2 0 1 st_fork = Ret 21 st_fork"
  by (simp add: st_fork_def st_written_def st0_def eval_defs)

lemma pagefault_step_st_read_oom:
  "pagefault_step 2 0 FEC_WR st_read_oom = Done (Ret (- 1) st_read_oom')"
  by (simp add: pf_defs st_read_oom'_def st_read_oom_def st_read_def st_fork_def st_written_def
      st0_def nd_file_def eval_defs)

lemma pagefault_st_read_oom:
  "pagefault 2 0 FEC_WR st_read_oom = Some (Ret (- 1) st_read_oom')"
  by (rule pagefault_Done [OF _ pagefault_step_st_read_oom]) (simp add: USERTOP_def)

section \<open>Claims about page faults\<close>

text \<open>
  C5, as amended.  When \<open>vmap::pagefault\<close> has resolved a non-writing fault (it returned
  \<open>1\<close>), resolving the same fault again in the state it left depends on the mode of the
  region.  In a PRIVATE region the installed entry is present, user and writable, and the
  second call is a no-op on the fast-accept path: it returns \<open>0\<close> and the state is
  unchanged.  In a COW region the installed entry is not writable, so the second call is
  not accepted on the fast path: it takes the full path again and returns \<open>1\<close>.  Also
  then the whole state is unchanged: nothing is allocated, no TLB is invalidated, the same
  entry is installed again, and an object that loads on demand gets the same bytes again.
\<close>

theorem pagefault_second_resolution:
  assumes first: "pagefault vm va err s = Some (Ret 1 s1)" and nw: "err AND FEC_WR = 0"
  shows "\<exists>m mr e. vmap_lookup vm va 1 s = Ret m s \<and> vmas s m = Some mr \<and>
           map_option (\<lambda>mp. pte_load (pml4 mp) va) (vmaps s1 vm) = Some e \<and>
           (va_type mr = PRIVATE \<longrightarrow>
              e AND (PTE_P OR PTE_U OR PTE_W) = PTE_P OR PTE_U OR PTE_W \<and>
              pagefault vm va err s1 = Some (Ret 0 s1)) \<and>
           (va_type mr = COW \<longrightarrow>
              e AND (PTE_P OR PTE_U OR PTE_W) \<noteq> PTE_P OR PTE_U OR PTE_W \<and>
              pagefault vm va err s1 = Some (Ret 1 s1))"
proof -
  from pagefault_first_resolution [OF first nw] obtain mp m mr u sp nd pg where
    reach: "pf_reaches vm va s mp m mr" and
    pop: "pf_populate (vma_n mr) (fault_page va mr) s = Ret u sp" and
    n0: "vma_n mr \<noteq> 0" and nd: "vmnodes sp (vma_n mr) = Some nd" and
    pg: "slot nd (fault_page va mr) = Some pg" and
    s1: "s1 = pte_store vm va (installed_pte mr pg) sp"
    by blast
  from reach have lt: "va < USERTOP" and mp: "vmaps s vm = Some mp"
    and l: "vmap_lookup vm va 1 s = Ret m s" and m0: "m \<noteq> 0" and mr: "vmas s m = Some mr"
    by (simp_all add: pf_reaches_def)
  note fr = pf_populate_frame [OF pop]
  have mp_sp: "vmaps sp vm = Some mp" using fr mp by simp
  let ?mp1 = "mp\<lparr>pml4 := AList.update (PGROUNDDOWN va) (installed_pte mr pg) (pml4 mp)\<rparr>"
  have mp1: "vmaps s1 vm = Some ?mp1"
    unfolding s1 by (simp add: pte_store_vmaps [OF mp_sp])
  have pte1: "pte_load (pml4 ?mp1) va = installed_pte mr pg"
    by (simp add: pte_load_update)
  have entry: "map_option (\<lambda>mp. pte_load (pml4 mp) va) (vmaps s1 vm) = Some (installed_pte mr pg)"
    using mp1 pte1 by simp
  have priv: "installed_pte mr pg AND (PTE_P OR PTE_U OR PTE_W) = PTE_P OR PTE_U OR PTE_W \<and>
      pagefault vm va err s1 = Some (Ret 0 s1)" if "va_type mr = PRIVATE"
  proof -
    from that have w: "installed_pte mr pg AND (PTE_P OR PTE_U OR PTE_W) = (PTE_P OR PTE_U OR PTE_W)"
      by (simp add: installed_pte_def pte_writable)
    with mp1 pte1 have "pagefault_step vm va err s1 = Done (Ret 0 s1)"
      by (simp add: pagefault_step_def Let_def)
    from pagefault_Done [OF lt this] w show ?thesis by simp
  qed
  have cow: "installed_pte mr pg AND (PTE_P OR PTE_U OR PTE_W) \<noteq> PTE_P OR PTE_U OR PTE_W \<and>
      pagefault vm va err s1 = Some (Ret 1 s1)" if c: "va_type mr = COW"
  proof -
    from c have inst: "installed_pte mr pg = v2p pg OR PTE_P OR PTE_U OR PTE_COW"
      by (simp add: installed_pte_def)
    have nwr: "installed_pte mr pg AND (PTE_P OR PTE_U OR PTE_W) \<noteq> PTE_P OR PTE_U OR PTE_W"
      by (simp add: inst pte_cow_not_writable)
    have vmas1: "vmas s1 = vmas s" unfolding s1 using fr by (simp add: pte_store_frame)
    have l1: "vmap_lookup vm va 1 s1 = Ret m s1"
      by (rule vmap_lookup_cong [OF l mp mp1 _ vmas1]) simp
    have reach1: "pf_reaches vm va s1 ?mp1 m mr"
      using lt mp1 l1 m0 mr vmas1
      by (simp add: pf_reaches_def pte_load_update inst pte_cow_not_writable pte_cow_not_locked)
    have "vmnodes s1 = vmnodes sp" "inodes s1 = inodes sp" "physmem s1 = physmem sp"
      unfolding s1 by (simp_all add: pte_store_frame)
    from pf_populate_idem [OF pop n0 this]
    have pop1: "pf_populate (vma_n mr) (fault_page va mr) s1 = Ret () s1" .
    have t: "vmas s1 m \<noteq> None" "vmnodes s1 (vma_n mr) = Some nd"
      using vmas1 mr nd unfolding s1 by (simp_all add: pte_store_frame)
    from pf_install_result [OF mp1 pte1 t(1), where mr = mr and npg = "fault_page va mr"]
      n0 t(2) pg c
    have "pf_install vm va (installed_pte mr pg) m mr (fault_page va mr) s1 =
        Done (Ret 1 (pte_store vm va (installed_pte mr pg) s1))"
      by simp
    moreover have "pte_store vm va (installed_pte mr pg) s1 = s1"
      by (rule pte_store_idem [OF mp1]) simp
    ultimately have "pagefault_step vm va err s1 = Done (Ret 1 s1)"
      using pop1 nw by (simp add: pagefault_step_reached [OF reach1] pte_load_update)
    from pagefault_Done [OF lt this] nwr show ?thesis by simp
  qed
  from l mr entry priv cow show ?thesis by blast
qed

text \<open>
  C5 as stated fails: after a fork, a read fault of the child at address 0 installs the
  entry \<open>0x5805\<close> (present, user, COW), which is not writable, and the same fault resolved
  again is not accepted on the fast path (it returns \<open>1\<close>, not \<open>0\<close>).
\<close>

theorem pagefault_cow_read_twice_counterexample:
  "pagefault 2 0 0 st_fork = Some (Ret 1 st_read) \<and>
   pagefault 2 0 0 st_read = Some (Ret 1 st_read) \<and>
   map_option (\<lambda>mp. pte_load (pml4 mp) 0) (vmaps st_read 2) = Some 0x5805 \<and>
   (0x5805 :: u64) AND (PTE_P OR PTE_U OR PTE_W) \<noteq> PTE_P OR PTE_U OR PTE_W"
  by (simp add: pagefault_st_fork_read pagefault_st_read)
     (simp add: st_read_def pte_load_def PGROUNDDOWN_0 PTE_P_def PTE_U_def PTE_W_def)


text \<open>
  Both cases at work: a read fault in the private region of the address space 1, taken
  twice, and a read fault in the COW region of the forked child, taken twice.
\<close>

theorem pagefault_second_resolution_witness:
  "pagefault 1 0 0 st_two = Some (Ret 1 st_two_read) \<and>
   pagefault 1 0 0 st_two_read = Some (Ret 0 st_two_read) \<and>
   pagefault 2 0 0 st_fork = Some (Ret 1 st_read) \<and>
   pagefault 2 0 0 st_read = Some (Ret 1 st_read)"
proof -
  have r20: "vmas st_two 20 =
      Some \<lparr>vma_start = 0, vma_end = 4096, va_type = PRIVATE, vma_n = 10\<rparr>"
    by (simp add: st_two_def)
  have r21: "vmas st_fork 21 =
      Some \<lparr>vma_start = 0, vma_end = 4096, va_type = COW, vma_n = 10\<rparr>"
    by (simp add: st_fork_def)
  from pagefault_second_resolution [OF pagefault_st_two] r20 vmap_lookup_st_two
  have "pagefault 1 0 0 st_two_read = Some (Ret 0 st_two_read)"
    by auto
  moreover from pagefault_second_resolution [OF pagefault_st_fork_read] r21 vmap_lookup_st_fork
  have "pagefault 2 0 0 st_read = Some (Ret 1 st_read)"
    by auto
  ultimately show ?thesis
    using pagefault_st_two pagefault_st_fork_read by simp
qed

text \<open>
  C6, as amended.  For a fault that gets past the fast-accept test and finds a region with
  a backing object, exhaustion of the page allocator is fatal in one place and not in the
  other.  When the slot of the faulting page is empty and \<open>allocpg\<close> fails, at its first
  page or part-way, \<open>vmap::pagefault\<close> panics; \<open>allocpg\<close> fails whenever the object has
  more empty slots than there are free pages.  When the fault is a write on a COW region
  and \<open>vmnode::copy\<close> returns null, \<open>vmap::pagefault_wcow\<close> fails and \<open>vmap::pagefault\<close>
  returns \<open>-1\<close> to the faulting context in the state the failed copy left; the copy of an
  object whose first page is resident returns null whenever the object has more pages
  than there are free pages, and then the regions and the address spaces are unchanged.
\<close>

theorem pagefault_exhaustion:
  assumes reach: "pf_reaches vm va s mp m mr" and node: "vma_n mr \<noteq> 0"
  shows "(\<forall>nd r s'. vmnodes s (vma_n mr) = Some nd \<and> slot nd (fault_page va mr) = Some 0 \<and>
            allocpg (vma_n mr) s = Ret r s' \<and> r < 0 \<longrightarrow>
            pagefault vm va err s = Some (Panic ''pagefault: couldn't allocate pages'')) \<and>
         (\<forall>nd. vmnodes s (vma_n mr) = Some nd \<and> slot nd (fault_page va mr) = Some 0 \<and>
            unat (npages nd) \<le> length (page nd) \<and> unat (npages nd) \<le> NELEM_page \<and>
            length (kmem s) <
              length (filter (\<lambda>q. q = 0) (take (unat (npages nd)) (page nd))) \<longrightarrow>
            pagefault vm va err s = Some (Panic ''pagefault: couldn't allocate pages'')) \<and>
         (\<forall>s1 s2.
            pf_populate (vma_n mr) (fault_page va mr) s = Ret () s1 \<and>
            va_type mr = COW \<and> err AND FEC_WR \<noteq> 0 \<and>
            vmnode_copy (vma_n mr) s1 = Ret 0 s2 \<longrightarrow>
            pagefault vm va err s = Some (Ret (- 1) s2)) \<and>
         (\<forall>s1 nd p0 c cs.
            pf_populate (vma_n mr) (fault_page va mr) s = Ret () s1 \<and>
            va_type mr = COW \<and> err AND FEC_WR \<noteq> 0 \<and>
            vmnodes s1 (vma_n mr) = Some nd \<and> slot nd 0 = Some p0 \<and> p0 \<noteq> 0 \<and>
            unat (npages nd) \<le> NELEM_page \<and> length (kmem s1) < unat (npages nd) \<and>
            objmem s1 = c # cs \<and> c \<noteq> 0 \<and> c \<noteq> vma_n mr \<and>
            (type nd = ONDEMAND \<longrightarrow> inodes s1 (ip nd) \<noteq> None) \<longrightarrow>
            (\<exists>s2. pagefault vm va err s = Some (Ret (- 1) s2) \<and>
                  vmas s2 = vmas s \<and> vmaps s2 = vmaps s))"
proof -
  from reach have lt: "va < USERTOP" by (simp add: pf_reaches_def)
  have panic: "pagefault vm va err s = Some (Panic ''pagefault: couldn't allocate pages'')"
    if "vmnodes s (vma_n mr) = Some nd" "slot nd (fault_page va mr) = Some 0"
      "allocpg (vma_n mr) s = Ret r s'" "r < 0" for nd r s'
  proof -
    from that node have "pf_populate (vma_n mr) (fault_page va mr) s =
        Panic ''pagefault: couldn't allocate pages''"
      by (simp add: pf_populate_def)
    then have "pagefault_step vm va err s = Done (Panic ''pagefault: couldn't allocate pages'')"
      by (simp add: pagefault_step_reached [OF reach])
    from pagefault_Done [OF lt this] show ?thesis .
  qed
  have fail: "pagefault vm va err s = Some (Ret (- 1) s2)"
    if "pf_populate (vma_n mr) (fault_page va mr) s = Ret () s1" "va_type mr = COW"
      "err AND FEC_WR \<noteq> 0" "vmnode_copy (vma_n mr) s1 = Ret 0 s2" for s1 s2
  proof -
    from pf_populate_frame [OF that(1)] reach have "vmas s1 m = Some mr"
      by (simp add: pf_reaches_def)
    with node that(4) have "pagefault_wcow vm m s1 = Some (Ret (- 1) s2)"
      by (simp add: pagefault_wcow_def)
    with that have "pagefault_step vm va err s = Done (Ret (- 1) s2)"
      by (simp add: pagefault_step_reached [OF reach])
    from pagefault_Done [OF lt this] show ?thesis .
  qed
  have short: "pagefault vm va err s = Some (Panic ''pagefault: couldn't allocate pages'')"
    if "vmnodes s (vma_n mr) = Some nd" "slot nd (fault_page va mr) = Some 0"
      "unat (npages nd) \<le> length (page nd)" "unat (npages nd) \<le> NELEM_page"
      "length (kmem s) < length (filter (\<lambda>q. q = 0) (take (unat (npages nd)) (page nd)))"
    for nd
  proof -
    from that(5) have "length (kmem s) <
        length (filter (\<lambda>q. q = 0) (drop 0 (take (unat (npages nd)) (page nd))))" by simp
    from allocpg_loop_short [OF that(1,3,4) this]
    obtain s' where "allocpg (vma_n mr) s = Ret (- 1) s'" by (auto simp: allocpg_def)
    from panic [OF that(1,2) this] show ?thesis by simp
  qed
  have copy: "\<exists>s2. pagefault vm va err s = Some (Ret (- 1) s2) \<and>
                  vmas s2 = vmas s \<and> vmaps s2 = vmaps s"
    if "pf_populate (vma_n mr) (fault_page va mr) s = Ret () s1" "va_type mr = COW"
      "err AND FEC_WR \<noteq> 0" "vmnodes s1 (vma_n mr) = Some nd" "slot nd 0 = Some p0" "p0 \<noteq> 0"
      "unat (npages nd) \<le> NELEM_page" "length (kmem s1) < unat (npages nd)"
      "objmem s1 = c # cs" "c \<noteq> 0" "c \<noteq> vma_n mr"
      "type nd = ONDEMAND \<longrightarrow> inodes s1 (ip nd) \<noteq> None"
    for s1 nd p0 c cs
  proof -
    from vmnode_copy_short [OF that(4-12)] obtain s2 where
      s2: "vmnode_copy (vma_n mr) s1 = Ret 0 s2" "vmas s2 = vmas s1" "vmaps s2 = vmaps s1"
      by blast
    from fail [OF that(1-3) s2(1)] s2(2,3) pf_populate_frame [OF that(1)] show ?thesis
      by simp
  qed
  from panic short fail copy show ?thesis by blast
qed

text \<open>
  C6 as stated fails: with no free page, a write fault of the forked child on its COW
  region, whose entry is present, returns \<open>-1\<close>; the kernel does not halt.
\<close>

theorem pagefault_wcow_exhaustion_counterexample:
  "kmem st_read_oom = [] \<and>
   pagefault 2 0 FEC_WR st_read_oom = Some (Ret (- 1) st_read_oom')"
proof
  show "kmem st_read_oom = []" by (simp add: st_read_oom_def)
  show "pagefault 2 0 FEC_WR st_read_oom = Some (Ret (- 1) st_read_oom')"
    by (rule pagefault_st_read_oom)
qed

text \<open>
  Both cases at work with exhaustion part-way: a read fault on an object of two empty
  slots with one free page, and a write fault on a shared object of two resident pages
  with one free page.
\<close>

theorem pagefault_exhaustion_witness:
  "kmem st_pair = [5] \<and>
   pagefault 1 0 0 st_pair = Some (Panic ''pagefault: couldn't allocate pages'') \<and>
   kmem st_cow_pair = [7] \<and>
   (\<exists>s2. pagefault 2 0 FEC_WR st_cow_pair = Some (Ret (- 1) s2) \<and>
      vmas s2 = vmas st_cow_pair \<and> vmaps s2 = vmaps st_cow_pair)"
proof -
  let ?mr = "\<lparr>vma_start = 0, vma_end = 8192, va_type = PRIVATE, vma_n = 10\<rparr>"
  have reach: "pf_reaches 1 0 st_pair \<lparr>cr = [20], ref = 1, pml4 = [(0, 0)]\<rparr> 20 ?mr"
    by (simp add: pf_reaches_def st_pair_def st0_def eval_defs)
  have pg: "fault_page 0 ?mr = 0"
    by (simp add: fault_page_def PGROUNDDOWN_0 PGSIZE_def)
  have "vmnodes st_pair (vma_n ?mr) = Some nd_empty2 \<and>
      slot nd_empty2 (fault_page 0 ?mr) = Some 0 \<and>
      unat (npages nd_empty2) \<le> length (page nd_empty2) \<and>
      unat (npages nd_empty2) \<le> NELEM_page \<and>
      length (kmem st_pair) <
        length (filter (\<lambda>q. q = 0) (take (unat (npages nd_empty2)) (page nd_empty2)))"
    by (simp add: pg) (simp add: st_pair_def nd_empty2_def slot_def NELEM_page_def)
  with pagefault_exhaustion [OF reach, of 0, THEN conjunct2, THEN conjunct1, rule_format,
      of nd_empty2]
  have panic: "pagefault 1 0 0 st_pair = Some (Panic ''pagefault: couldn't allocate pages'')"
    by simp
  let ?mc = "\<lparr>vma_start = 0, vma_end = 8192, va_type = COW, vma_n = 10\<rparr>"
  have reach2: "pf_reaches 2 0 st_cow_pair \<lparr>cr = [21], ref = 1, pml4 = [(0, 0x5805)]\<rparr> 21 ?mc"
    by (simp add: pf_reaches_def st_cow_pair_def st0_def eval_defs)
  have pg2: "fault_page 0 ?mc = 0"
    by (simp add: fault_page_def PGROUNDDOWN_0 PGSIZE_def)
  have pop: "pf_populate 10 0 st_cow_pair = Ret () st_cow_pair"
    by (simp add: pf_populate_def st_cow_pair_def st0_def nd_pair_def eval_defs)
  have "pf_populate (vma_n ?mc) (fault_page 0 ?mc) st_cow_pair = Ret () st_cow_pair \<and>
      va_type ?mc = COW \<and> FEC_WR AND FEC_WR \<noteq> 0 \<and>
      vmnodes st_cow_pair (vma_n ?mc) = Some nd_pair \<and>
      slot nd_pair 0 = Some 5 \<and> (5::nat) \<noteq> 0 \<and>
      unat (npages nd_pair) \<le> NELEM_page \<and>
      length (kmem st_cow_pair) < unat (npages nd_pair) \<and>
      objmem st_cow_pair = 30 # [31] \<and> (30::nat) \<noteq> 0 \<and> 30 \<noteq> vma_n ?mc \<and>
      (type nd_pair = ONDEMAND \<longrightarrow> inodes st_cow_pair (ip nd_pair) \<noteq> None)"
    by (simp add: pg2 pop)
       (simp add: st_cow_pair_def nd_pair_def slot_def FEC_WR_def NELEM_page_def)
  with pagefault_exhaustion [OF reach2, of FEC_WR, THEN conjunct2, THEN conjunct2,
      THEN conjunct2, rule_format, of st_cow_pair nd_pair 5 30 "[31]"]
  have "\<exists>s2. pagefault 2 0 FEC_WR st_cow_pair = Some (Ret (- 1) s2) \<and>
      vmas s2 = vmas st_cow_pair \<and> vmaps s2 = vmaps st_cow_pair"
    by simp
  moreover have "kmem st_pair = [5]" "kmem st_cow_pair = [7]"
    by (simp_all add: st_pair_def st_cow_pair_def)
  ultimately show ?thesis using panic by blast
qed

text \<open>
  C1 fails in the code.  The parent has written its page (page 5 holds the byte 66, the
  file holds 65) and forks; the child then takes a write fault at address 0.  Before the
  write-upgrade, \<open>vmap::pagefault\<close> calls \<open>demand_load\<close> on the shared object, which loads
  on demand, although its page is resident: the page 5, which the parent's region 22
  still maps through the object 10, holds the bytes of the file again.  The sibling region
  is not unchanged byte for byte.
\<close>

theorem pagefault_cow_write_reloads_shared_page:
  "vmap_copy 1 True st_written = Some (Ret 2 st_fork) \<and>
   pagefault 2 0 FEC_WR st_fork = Some (Ret 1 st_final) \<and>
   vmas st_fork 22 = Some \<lparr>vma_start = 0, vma_end = 4096, va_type = COW, vma_n = 10\<rparr> \<and>
   vmas st_final 22 = vmas st_fork 22 \<and>
   map_option page (vmnodes st_fork 10) = Some [5] \<and>
   map_option page (vmnodes st_final 10) = Some [5] \<and>
   physmem st_fork 5 = replicate PGSIZE 66 \<and>
   physmem st_final 5 = replicate PGSIZE 65"
proof (intro conjI)
  show "vmap_copy 1 True st_written = Some (Ret 2 st_fork)"
    by (rule vmap_copy_st_written)
  show "pagefault 2 0 FEC_WR st_fork = Some (Ret 1 st_final)"
    by (rule pagefault_st_fork)
qed (simp_all add: st_final_def st_fork_def st_written_def nd_file_def)

section \<open>Claims about fork\<close>

text \<open>
  C2 fails in the code.  \<open>vmap::copy\<close> checks the child's region \<open>ne\<close> against null, not
  the parent's replacement \<open>repl\<close>.  When operator \<open>new\<close> has objects left for the child's
  address space and the child's region only, \<open>replace_vma(e, 0)\<close> removes the parent's
  region, and the copy succeeds: the child holds a COW region over the object 10 and the
  parent holds no region at all.
\<close>

theorem vmap_copy_unchecked_region:
  "vmap_copy 1 True (st_written\<lparr>objmem := [2, 21]\<rparr>) = Some (Ret 2 st_lost) \<and>
   map_option cr (vmaps st_written 1) = Some [20] \<and>
   map_option cr (vmaps st_lost 1) = Some [] \<and>
   map_option cr (vmaps st_lost 2) = Some [21] \<and>
   vmas st_lost 21 = Some \<lparr>vma_start = 0, vma_end = 4096, va_type = COW, vma_n = 10\<rparr>"
proof (intro conjI)
  show "vmap_copy 1 True (st_written\<lparr>objmem := [2, 21]\<rparr>) = Some (Ret 2 st_lost)"
    by (rule vmap_copy_two_objects)
qed (simp_all add: st_lost_def st_written_def)

end
